theory Spec2Isabelle
  imports Main "HOL-Library.Extended_Nat" "HOL-Library.Product_Lexorder"
begin

section \<open>Grid model of maze1.py\<close>

text \<open>
  Cells are pairs (row, col) of Python integers. The cell kinds are the integer constants
  EMPTY .. REWARD of the module; the grid is a list of ROWS rows of COLS kinds each.
\<close>

type_synonym cell = "int \<times> int"

datatype cell_type = EMPTY | WALL | START | GOAL | OPEN | CLOSED | PATH | REWARD

type_synonym grid = "cell_type list list"

definition ROWS :: int where
  "ROWS = 30"

definition COLS :: int where
  "COLS = 30"

definition make_grid :: grid where
  "make_grid = replicate (nat ROWS) (replicate (nat COLS) EMPTY)"

text \<open>Every grid the program builds has ROWS rows of COLS cells.\<close>

definition grid_ok :: "grid \<Rightarrow> bool" where
  "grid_ok grid \<longleftrightarrow> length grid = nat ROWS \<and> list_all (\<lambda>row. length row = nat COLS) grid"

text \<open>\<open>grid[r][c]\<close>, read only after the bounds check of the callers.\<close>

definition cell_at :: "grid \<Rightarrow> int \<Rightarrow> int \<Rightarrow> cell_type" where
  "cell_at grid r c = grid ! nat r ! nat c"

definition in_bounds :: "cell \<Rightarrow> bool" where
  "in_bounds p \<longleftrightarrow> 0 \<le> fst p \<and> fst p < ROWS \<and> 0 \<le> snd p \<and> snd p < COLS"

definition corner_positions :: "cell list" where
  "corner_positions = [(0, 0), (0, COLS - 1), (ROWS - 1, 0), (ROWS - 1, COLS - 1)]"

text \<open>The four moves, in the order of the source's loops.\<close>

definition directions :: "cell list" where
  "directions = [(1, 0), (-1, 0), (0, 1), (0, -1)]"

section \<open>A* search\<close>

definition heuristic :: "cell \<Rightarrow> cell \<Rightarrow> int" where
  "heuristic a b = \<bar>fst a - fst b\<bar> + \<bar>snd a - snd b\<bar>"

text \<open>
  \<open>reconstruct_path\<close>: the source builds \<open>[current]\<close>, appends predecessors while the
  current cell is a key of \<open>came_from\<close>, and reverses. The loop need not stop on an
  arbitrary dictionary, so the result is an option: \<open>None\<close> stands for a loop that
  never returns.
\<close>

partial_function (option) reconstruct_loop :: "(cell \<rightharpoonup> cell) \<Rightarrow> cell \<Rightarrow> cell list \<Rightarrow> cell list option" where
  "reconstruct_loop came_from current path =
     (case came_from current of
        None \<Rightarrow> Some (rev path)
      | Some prev \<Rightarrow> reconstruct_loop came_from prev (path @ [prev]))"

declare reconstruct_loop.simps [code]

definition reconstruct_path :: "(cell \<rightharpoonup> cell) \<Rightarrow> cell \<Rightarrow> cell \<Rightarrow> cell list option" where
  "reconstruct_path came_from current start = reconstruct_loop came_from current [current]"

text \<open>
  The open set is a heapq list of tuples (f, counter, cell). Python compares the tuples
  lexicographically and \<open>heappop\<close> returns the least one; the model keeps the entries in a
  list and takes the least entry out, which gives the same sequence of popped entries.
  Scores are non-negative integers or \<open>float('inf')\<close>: extended naturals.
\<close>

type_synonym heap_entry = "enat \<times> nat \<times> cell"

definition heappush :: "heap_entry list \<Rightarrow> heap_entry \<Rightarrow> heap_entry list" where
  "heappush h e = h @ [e]"

definition heap_min :: "heap_entry list \<Rightarrow> heap_entry" where
  "heap_min h = fold min (tl h) (hd h)"

definition heappop :: "heap_entry list \<Rightarrow> heap_entry \<times> heap_entry list" where
  "heappop h = (heap_min h, remove1 (heap_min h) h)"

record astar_state =
  g_score :: "cell \<Rightarrow> enat"
  f_score :: "cell \<Rightarrow> enat"
  open_set :: "heap_entry list"
  came_from :: "cell \<rightharpoonup> cell"
  in_open :: "cell set"
  counter :: nat

text \<open>The body of the loop over the four neighbours of \<open>current\<close>.\<close>

definition relax :: "grid \<Rightarrow> cell \<Rightarrow> cell set \<Rightarrow> cell \<Rightarrow> cell \<Rightarrow> astar_state \<Rightarrow> astar_state" where
  "relax grid goal blocked current d st =
     (let nr = fst current + fst d; nc = snd current + snd d in
      if \<not> (0 \<le> nr \<and> nr < ROWS \<and> 0 \<le> nc \<and> nc < COLS) then st
      else if cell_at grid nr nc = WALL then st
      else if (nr, nc) \<in> blocked then st
      else
        let neighbor = (nr, nc);
            tentative_g = g_score st current + 1
        in if tentative_g < g_score st neighbor then
             let f = tentative_g + enat (nat (heuristic neighbor goal));
                 st1 = st\<lparr>came_from := (came_from st)(neighbor \<mapsto> current),
                          g_score := (g_score st)(neighbor := tentative_g),
                          f_score := (f_score st)(neighbor := f)\<rparr>
             in if neighbor \<notin> in_open st1 then
                  st1\<lparr>counter := counter st1 + 1,
                      open_set := heappush (open_set st1) (f, counter st1 + 1, neighbor),
                      in_open := insert neighbor (in_open st1)\<rparr>
                else st1
           else st)"

definition expand :: "grid \<Rightarrow> cell \<Rightarrow> cell set \<Rightarrow> cell \<Rightarrow> astar_state \<Rightarrow> astar_state" where
  "expand grid goal blocked current st = fold (relax grid goal blocked current) directions st"

text \<open>Termination of the main loop: a relaxation lowers a score, a pop shortens the heap.\<close>

definition cells :: "cell set" where
  "cells = {0..<ROWS} \<times> {0..<COLS}"

definition inf_count :: "(cell \<Rightarrow> enat) \<Rightarrow> nat" where
  "inf_count g = card {p \<in> cells. g p = \<infinity>}"

definition g_sum :: "(cell \<Rightarrow> enat) \<Rightarrow> nat" where
  "g_sum g = (\<Sum>p\<in>cells. the_enat (g p))"

definition astar_key :: "astar_state \<Rightarrow> nat \<times> nat \<times> nat" where
  "astar_key st = (inf_count (g_score st), g_sum (g_score st), length (open_set st))"

definition astar_rel :: "(astar_state \<times> astar_state) set" where
  "astar_rel = inv_image (less_than <*lex*> less_than <*lex*> less_than) astar_key"

definition astar_le :: "astar_state \<Rightarrow> astar_state \<Rightarrow> bool" where
  "astar_le s' s \<longleftrightarrow> (s', s) \<in> astar_rel \<or> astar_key s' = astar_key s"

lemma wf_astar_rel: "wf astar_rel"
  unfolding astar_rel_def by (intro wf_inv_image wf_lex_prod wf_less_than)

lemma finite_cells: "finite cells"
  by (simp add: cells_def)

lemma inf_count_upd:
  assumes "nb \<in> cells" "t \<noteq> \<infinity>" "g nb = \<infinity>"
  shows "inf_count (g(nb := t)) < inf_count g"
proof -
  have eq: "{p \<in> cells. (g(nb := t)) p = \<infinity>} = {p \<in> cells. g p = \<infinity>} - {nb}"
    using assms by auto
  have mem: "nb \<in> {p \<in> cells. g p = \<infinity>}" using assms by simp
  have fin: "finite {p \<in> cells. g p = \<infinity>}" using finite_cells by simp
  have "card ({p \<in> cells. g p = \<infinity>} - {nb}) < card {p \<in> cells. g p = \<infinity>}"
    by (rule card_Diff1_less[OF fin mem])
  then show ?thesis
    unfolding inf_count_def by (simp only: eq)
qed

lemma inf_count_upd_fin:
  assumes "t \<noteq> \<infinity>" "g nb \<noteq> \<infinity>"
  shows "inf_count (g(nb := t)) = inf_count g"
proof -
  have eq: "{p \<in> cells. (g(nb := t)) p = \<infinity>} = {p \<in> cells. g p = \<infinity>}"
    using assms by auto
  show ?thesis unfolding inf_count_def by (simp only: eq)
qed

lemma g_sum_upd:
  assumes "nb \<in> cells" "t < g nb" "g nb \<noteq> \<infinity>"
  shows "g_sum (g(nb := t)) < g_sum g"
proof -
  obtain n where n: "g nb = enat n" using assms(3) by auto
  obtain m where m: "t = enat m" "m < n" using assms(2) n by (cases t) auto
  have "(\<Sum>p\<in>cells. the_enat ((g(nb := t)) p))
        = the_enat t + (\<Sum>p\<in>cells - {nb}. the_enat ((g(nb := t)) p))"
    using finite_cells assms(1) by (simp add: sum.remove)
  also have "(\<Sum>p\<in>cells - {nb}. the_enat ((g(nb := t)) p)) = (\<Sum>p\<in>cells - {nb}. the_enat (g p))"
    by (rule sum.cong) auto
  finally have a: "(\<Sum>p\<in>cells. the_enat ((g(nb := t)) p)) = m + (\<Sum>p\<in>cells - {nb}. the_enat (g p))"
    using m by simp
  have b: "(\<Sum>p\<in>cells. the_enat (g p)) = n + (\<Sum>p\<in>cells - {nb}. the_enat (g p))"
    using finite_cells assms(1) n by (simp add: sum.remove)
  show ?thesis unfolding g_sum_def using a b m by simp
qed

lemma astar_le_refl: "astar_le s s"
  by (simp add: astar_le_def)

lemma astar_le_trans: "astar_le a b \<Longrightarrow> astar_le b c \<Longrightarrow> astar_le a c"
  unfolding astar_le_def astar_rel_def by (auto simp: astar_key_def)

lemma astar_le_less: "astar_le a b \<Longrightarrow> (b, c) \<in> astar_rel \<Longrightarrow> (a, c) \<in> astar_rel"
  unfolding astar_le_def astar_rel_def by (auto simp: astar_key_def)

lemma relax_le: "astar_le (relax grid goal blocked current d st) st"
proof -
  let ?nb = "(fst current + fst d, snd current + snd d)"
  let ?t = "g_score st current + 1"
  show ?thesis
  proof (cases "in_bounds ?nb \<and> cell_at grid (fst ?nb) (snd ?nb) \<noteq> WALL \<and> ?nb \<notin> blocked \<and> ?t < g_score st ?nb")
    case False
    then show ?thesis
      by (auto simp: relax_def Let_def in_bounds_def astar_le_refl)
  next
    case True
    then have nb: "?nb \<in> cells" by (auto simp: in_bounds_def cells_def)
    from True have lt: "?t < g_score st ?nb" by simp
    have tfin: "?t \<noteq> \<infinity>"
    proof
      assume "?t = \<infinity>"
      with lt show False by simp
    qed
    have dec: "inf_count ((g_score st)(?nb := ?t)) < inf_count (g_score st)
       \<or> (inf_count ((g_score st)(?nb := ?t)) = inf_count (g_score st) \<and>
           g_sum ((g_score st)(?nb := ?t)) < g_sum (g_score st))"
    proof (cases "g_score st ?nb = \<infinity>")
      case True
      then show ?thesis using inf_count_upd[of ?nb ?t "g_score st"] nb tfin by simp
    next
      case False
      then show ?thesis using inf_count_upd_fin[of ?t "g_score st" ?nb] tfin g_sum_upd[of ?nb ?t "g_score st"] nb lt by simp
    qed
    have "(relax grid goal blocked current d st, st) \<in> astar_rel"
      using True dec
      by (auto simp: relax_def Let_def in_bounds_def astar_rel_def astar_key_def)
    then show ?thesis by (simp add: astar_le_def)
  qed
qed

lemma fold_relax_le: "astar_le (fold (relax grid goal blocked current) ds st) st"
proof (induction ds arbitrary: st)
  case Nil
  then show ?case by (simp add: astar_le_refl)
next
  case (Cons d ds)
  show ?case
    using astar_le_trans[OF Cons.IH[of "relax grid goal blocked current d st"] relax_le]
    by simp
qed

lemma expand_le: "astar_le (expand grid goal blocked current st) st"
  by (simp add: expand_def fold_relax_le)

lemma fold_min_in: "fold min xs x \<in> set (x # xs)"
  by (induction xs arbitrary: x) (auto simp: min_def)

lemma heap_min_in: "h \<noteq> [] \<Longrightarrow> heap_min h \<in> set h"
  unfolding heap_min_def using fold_min_in[of "tl h" "hd h"] by (cases h) auto

lemma heappop_length: "h \<noteq> [] \<Longrightarrow> length (snd (heappop h)) < length h"
  using heap_min_in[of h] by (simp add: heappop_def length_remove1)

function astar_loop :: "grid \<Rightarrow> cell \<Rightarrow> cell \<Rightarrow> cell set \<Rightarrow> astar_state \<Rightarrow> cell list option option" where
  "astar_loop grid start goal blocked st =
     (if open_set st = [] then Some None
      else
        let current = snd (snd (fst (heappop (open_set st))));
            st1 = st\<lparr>open_set := snd (heappop (open_set st)), in_open := in_open st - {current}\<rparr>
        in if current = goal then map_option Some (reconstruct_path (came_from st1) goal start)
           else astar_loop grid start goal blocked (expand grid goal blocked current st1))"
  by pat_completeness auto
termination
proof (relation "inv_image astar_rel (\<lambda>(grid, start, goal, blocked, st). st)")
  show "wf (inv_image astar_rel (\<lambda>(grid, start, goal, blocked, st). st))"
    by (simp add: wf_astar_rel)
next
  fix grid :: grid and start goal :: cell and blocked :: "cell set" and st :: astar_state and x xa
  assume ne: "open_set st \<noteq> []"
    and x: "x = snd (snd (fst (heappop (open_set st))))"
    and xa: "xa = st\<lparr>open_set := snd (heappop (open_set st)), in_open := in_open st - {x}\<rparr>"
  have "(xa, st) \<in> astar_rel"
    using heappop_length[OF ne] by (simp add: xa astar_rel_def astar_key_def)
  then have "(expand grid goal blocked x xa, st) \<in> astar_rel"
    using astar_le_less[OF expand_le] by blast
  then show "((grid, start, goal, blocked, expand grid goal blocked x xa), grid, start, goal, blocked, st)
       \<in> inv_image astar_rel (\<lambda>(grid, start, goal, blocked, st). st)"
    by simp
qed


declare astar_loop.simps [simp del]

definition astar :: "grid \<Rightarrow> cell option \<Rightarrow> cell option \<Rightarrow> cell set option \<Rightarrow> cell list option option" where
  "astar grid start goal blocked =
     (case start of None \<Rightarrow> Some None | Some s \<Rightarrow>
      (case goal of None \<Rightarrow> Some None | Some g \<Rightarrow>
        (let b = (case blocked of None \<Rightarrow> {} | Some b \<Rightarrow> b);
            h = enat (nat (heuristic s g));
            st = \<lparr>g_score = (\<lambda>_. \<infinity>)(s := 0), f_score = (\<lambda>_. \<infinity>)(s := h),
                  open_set = heappush [] (h, 0, s), came_from = Map.empty, in_open = {s}, counter = 0\<rparr>
         in astar_loop grid s g b st)))"

section \<open>Breadth-first search of the ghosts\<close>

type_synonym bfs_state = "cell list \<times> cell set \<times> (cell \<rightharpoonup> cell)"

text \<open>The body of the loop over the four neighbours: queue, visited set, predecessors.\<close>

definition bfs_visit :: "grid \<Rightarrow> cell \<Rightarrow> cell \<Rightarrow> bfs_state \<Rightarrow> bfs_state" where
  "bfs_visit grid current d s =
     (case s of (q, visited, prev) \<Rightarrow>
        let nr = fst current + fst d; nc = snd current + snd d in
        if \<not> (0 \<le> nr \<and> nr < ROWS \<and> 0 \<le> nc \<and> nc < COLS) then s
        else if cell_at grid nr nc = WALL then s
        else
          let nxt = (nr, nc)
          in if nxt \<notin> visited then (q @ [nxt], insert nxt visited, prev(nxt \<mapsto> current))
             else s)"

definition bfs_key :: "bfs_state \<Rightarrow> nat" where
  "bfs_key s = (case s of (q, visited, prev) \<Rightarrow> 2 * card (cells - visited) + length q)"

lemma bfs_visit_key: "bfs_key (bfs_visit grid current d s) \<le> bfs_key s"
proof (cases s)
  case (fields q visited prev)
  let ?nxt = "(fst current + fst d, snd current + snd d)"
  show ?thesis
  proof (cases "?nxt \<in> cells \<and> ?nxt \<notin> visited")
    case True
    then have "card (cells - insert ?nxt visited) < card (cells - visited)"
      using finite_cells by (intro psubset_card_mono) auto
    then show ?thesis
      using fields by (simp add: bfs_visit_def bfs_key_def Let_def)
  next
    case False
    then show ?thesis
      using fields by (auto simp: bfs_visit_def bfs_key_def Let_def cells_def)
  qed
qed

lemma fold_bfs_visit_key: "bfs_key (fold (bfs_visit grid current) ds s) \<le> bfs_key s"
proof (induction ds arbitrary: s)
  case Nil
  then show ?case by simp
next
  case (Cons d ds)
  show ?case
    using Cons.IH[of "bfs_visit grid current d s"] bfs_visit_key[of grid current d s]
    by simp
qed

function bfs_loop :: "grid \<Rightarrow> cell \<Rightarrow> bfs_state \<Rightarrow> cell list option option" where
  "bfs_loop grid goal (q, visited, prev) =
     (case q of
        [] \<Rightarrow> Some None
      | current # rest \<Rightarrow>
          if current = goal then map_option Some (reconstruct_loop prev current [current])
          else bfs_loop grid goal (fold (bfs_visit grid current) directions (rest, visited, prev)))"
  by pat_completeness auto
termination
proof (relation "measure (\<lambda>(grid, goal, s). bfs_key s)")
  show "wf (measure (\<lambda>(grid, goal, s). bfs_key s))" by simp
next
  fix grid :: grid and goal :: cell and q :: "cell list" and visited :: "cell set"
    and prev :: "cell \<rightharpoonup> cell" and current rest
  assume "q = current # rest" "current \<noteq> goal"
  then have "bfs_key (rest, visited, prev) < bfs_key (q, visited, prev)"
    by (simp add: bfs_key_def)
  then show "((grid, goal, fold (bfs_visit grid current) directions (rest, visited, prev)),
              grid, goal, q, visited, prev) \<in> measure (\<lambda>(grid, goal, s). bfs_key s)"
    using fold_bfs_visit_key[of grid current directions "(rest, visited, prev)"] by simp
qed

declare bfs_loop.simps [simp del]

definition bfs_path :: "grid \<Rightarrow> cell option \<Rightarrow> cell option \<Rightarrow> cell list option option" where
  "bfs_path grid start goal =
     (case start of None \<Rightarrow> Some None | Some s \<Rightarrow>
      (case goal of None \<Rightarrow> Some None | Some g \<Rightarrow>
        if s = g then Some (Some [s])
        else bfs_loop grid g ([s], {s}, Map.empty)))"

section \<open>Level loading\<close>

text \<open>
  The values \<open>load_level\<close> returns: grid, start, goal, reward cells, ghost positions.
\<close>

type_synonym level = "grid \<times> cell option \<times> cell option \<times> cell set \<times> cell list"

text \<open>\<open>grid[r][c] = v\<close>, used after a bounds check.\<close>

definition set_cell :: "grid \<Rightarrow> int \<Rightarrow> int \<Rightarrow> cell_type \<Rightarrow> grid" where
  "set_cell grid r c v = grid[nat r := (grid ! nat r)[nat c := v]]"

text \<open>The body of the inner loop of \<open>load_level\<close>, for character \<open>ch\<close> at (r, c).\<close>

definition place_char :: "int \<Rightarrow> int \<Rightarrow> nat \<Rightarrow> nat \<times> char \<Rightarrow> level \<Rightarrow> level" where
  "place_char row_offset col_offset r cch lv =
     (case lv of (grid, start, goal, reward_cells, ghost_positions) \<Rightarrow>
        let c = fst cch; ch = snd cch;
            gr = int r + row_offset;
            gc = int c + col_offset
        in if \<not> (0 \<le> gr \<and> gr < ROWS \<and> 0 \<le> gc \<and> gc < COLS) then lv
           else if ch = CHR ''#'' then (set_cell grid gr gc WALL, start, goal, reward_cells, ghost_positions)
           else if ch = CHR ''S'' then (set_cell grid gr gc START, Some (gr, gc), goal, reward_cells, ghost_positions)
           else if ch = CHR ''G'' then (set_cell grid gr gc GOAL, start, Some (gr, gc), reward_cells, ghost_positions)
           else if ch = CHR ''D'' then (set_cell grid gr gc REWARD, start, goal, insert (gr, gc) reward_cells, ghost_positions)
           else if ch = CHR ''X'' then (grid, start, goal, reward_cells, ghost_positions @ [(gr, gc)])
           else (set_cell grid gr gc EMPTY, start, goal, reward_cells, ghost_positions))"

definition place_line :: "int \<Rightarrow> int \<Rightarrow> nat \<times> string \<Rightarrow> level \<Rightarrow> level" where
  "place_line row_offset col_offset rline lv =
     fold (place_char row_offset col_offset (fst rline)) (List.enumerate 0 (snd rline)) lv"

definition empty_level :: level where
  "empty_level = (make_grid, None, None, {}, [])"

text \<open>\<open>load_level\<close> from the list \<open>lines\<close> of non-blank lines on.\<close>

definition load_lines :: "string list \<Rightarrow> level" where
  "load_lines lines =
     (if lines = [] then empty_level
      else
        let level_rows = int (length lines);
            level_cols = int (Max (set (map length lines)));
            row_offset = (ROWS - level_rows) div 2;
            col_offset = (COLS - level_cols) div 2
        in fold (place_line row_offset col_offset) (List.enumerate 0 lines) empty_level)"

text \<open>
  The file is given as its decoded text, a list of characters with code points below 256, or
  \<open>None\<close> when there is no such file. \<open>open(filename, "r")\<close> reads with
  universal newlines: a carriage return followed by a line feed, and a carriage return alone,
  reach the program as one line feed.
\<close>

fun translate_newlines :: "string \<Rightarrow> string" where
  "translate_newlines [] = []"
| "translate_newlines [ch] = [if ch = CHR 0x0D then CHR 0x0A else ch]"
| "translate_newlines (ch # ch2 # rest) =
     (if ch = CHR 0x0D then
        (if ch2 = CHR 0x0A then CHR 0x0A # translate_newlines rest
         else CHR 0x0A # translate_newlines (ch2 # rest))
      else ch # translate_newlines (ch2 # rest))"

text \<open>
  Iterating over the file gives its lines, each with its line feed; the last line may lack one.
\<close>

fun split_lines :: "string \<Rightarrow> string list" where
  "split_lines [] = []"
| "split_lines (ch # rest) =
     (if ch = CHR 0x0A then [ch] # split_lines rest
      else (case split_lines rest of [] \<Rightarrow> [[ch]] | line # others \<Rightarrow> (ch # line) # others))"

definition file_lines :: "string \<Rightarrow> string list" where
  "file_lines content = split_lines (translate_newlines content)"

text \<open>\<open>line.strip()\<close> is empty exactly for a line of whitespace characters.\<close>

definition is_space :: "char \<Rightarrow> bool" where
  "is_space ch \<longleftrightarrow> ch \<in> set [CHR '' '', CHR 0x09, CHR 0x0A, CHR 0x0B, CHR 0x0C, CHR 0x0D,
                              CHR 0x1C, CHR 0x1D, CHR 0x1E, CHR 0x1F, CHR 0x85, CHR 0xA0]"

definition rstrip_newline :: "string \<Rightarrow> string" where
  "rstrip_newline line = rev (dropWhile (\<lambda>ch. ch = CHR 0x0A) (rev line))"

definition load_level :: "string option \<Rightarrow> level" where
  "load_level file =
     (case file of
        None \<Rightarrow> empty_level
      | Some content \<Rightarrow>
          load_lines (map rstrip_newline
                        (filter (\<lambda>line. \<not> list_all is_space line) (file_lines content))))"

section \<open>The game loop\<close>

definition PAC_MOVE_INTERVAL :: int where
  "PAC_MOVE_INTERVAL = 120"

definition GHOST_MOVE_INTERVAL :: int where
  "GHOST_MOVE_INTERVAL = 260"

definition WIDTH :: int where
  "WIDTH = 600"

definition CELL_SIZE :: int where
  "CELL_SIZE = WIDTH div COLS"

definition get_cell_from_mouse :: "int \<times> int \<Rightarrow> cell option" where
  "get_cell_from_mouse pos =
     (let x = fst pos; y = snd pos;
          c = x div CELL_SIZE;
          r = y div CELL_SIZE
      in if 0 \<le> r \<and> r < ROWS \<and> 0 \<le> c \<and> c < COLS then Some (r, c) else None)"

text \<open>
  The local variables of \<open>main\<close> that the game logic uses. The fields \<open>cur_grid\<close>,
  \<open>start_cell\<close> and \<open>goal_cell\<close> are the variables \<open>grid\<close>, \<open>start\<close> and \<open>goal\<close>.
\<close>

record game =
  cur_grid :: grid
  start_cell :: "cell option"
  goal_cell :: "cell option"
  reward_cells :: "cell set"
  pac_pos :: "cell option"
  ghost_positions :: "cell list"
  playing :: bool
  game_over :: bool
  reason :: "string option"
  score :: int
  final_score :: "int option"
  start_time :: "int option"
  end_time :: "int option"
  last_pac_move_time :: int
  last_ghost_move_time :: int

text \<open>The corner loop at the start of \<open>main\<close> and after the C key.\<close>

definition spawn_corner_ghosts :: "grid \<Rightarrow> cell list \<Rightarrow> cell list" where
  "spawn_corner_ghosts grid ghosts =
     fold (\<lambda>p gs. if 0 \<le> fst p \<and> fst p < ROWS \<and> 0 \<le> snd p \<and> snd p < COLS
                   then (if cell_at grid (fst p) (snd p) \<noteq> WALL then gs @ [p] else gs)
                   else gs)
          corner_positions ghosts"

definition init_game :: game where
  "init_game =
     \<lparr>cur_grid = make_grid, start_cell = None, goal_cell = None, reward_cells = {},
      pac_pos = None, ghost_positions = spawn_corner_ghosts make_grid [],
      playing = False, game_over = False, reason = None, score = 0, final_score = None,
      start_time = None, end_time = None, last_pac_move_time = 0, last_ghost_move_time = 0\<rparr>"


text \<open>The key handlers of the event loop: C, L, SPACE (at clock value \<open>now\<close>) and R.\<close>

definition key_c :: "game \<Rightarrow> game" where
  "key_c st =
     st\<lparr>cur_grid := make_grid, start_cell := None, goal_cell := None, reward_cells := {},
        pac_pos := None, ghost_positions := spawn_corner_ghosts make_grid [],
        playing := False, game_over := False, reason := None, score := 0, final_score := None,
        start_time := None, end_time := None\<rparr>"

definition add_corner_ghosts :: "grid \<Rightarrow> cell list \<Rightarrow> cell list" where
  "add_corner_ghosts grid ghosts =
     fold (\<lambda>p gs. if 0 \<le> fst p \<and> fst p < ROWS \<and> 0 \<le> snd p \<and> snd p < COLS
                        \<and> cell_at grid (fst p) (snd p) \<noteq> WALL
                   then (if p \<notin> set gs then gs @ [p] else gs)
                   else gs)
          corner_positions ghosts"

definition key_l :: "string option \<Rightarrow> game \<Rightarrow> game" where
  "key_l file st =
     (case load_level file of (grid, start, goal, rewards, ghosts) \<Rightarrow>
        st\<lparr>cur_grid := grid, start_cell := start, goal_cell := goal, reward_cells := rewards,
           ghost_positions := add_corner_ghosts grid ghosts,
           pac_pos := None, playing := False, game_over := False, reason := None, score := 0,
           final_score := None, start_time := None, end_time := None\<rparr>)"

definition key_space :: "int \<Rightarrow> game \<Rightarrow> game" where
  "key_space now st =
     (if start_cell st \<noteq> None \<and> goal_cell st \<noteq> None \<and> \<not> playing st then
        st\<lparr>playing := True, game_over := False, reason := None, pac_pos := start_cell st,
           score := 0, final_score := None, start_time := Some now, end_time := None,
           last_pac_move_time := now, last_ghost_move_time := now\<rparr>
      else st)"

definition key_r :: "game \<Rightarrow> game" where
  "key_r st =
     st\<lparr>playing := False, game_over := False, reason := None, final_score := None,
        pac_pos := None, start_time := None, end_time := None\<rparr>"

text \<open>
  Mouse editing, for a left click on \<open>cell\<close> with the state of the shift keys and of
  the G key, and for a right click.
\<close>

definition left_click :: "cell \<Rightarrow> bool \<Rightarrow> bool \<Rightarrow> game \<Rightarrow> game" where
  "left_click cell shift key_g st =
     (let r = fst cell; c = snd cell in
      if shift then
        (if Some (r, c) \<noteq> start_cell st \<and> Some (r, c) \<noteq> goal_cell st then
           st\<lparr>cur_grid := set_cell (cur_grid st) r c REWARD,
              reward_cells := insert (r, c) (reward_cells st)\<rparr>
         else st)
      else if key_g then
        (if (r, c) \<notin> set (ghost_positions st) then
           st\<lparr>ghost_positions := ghost_positions st @ [(r, c)]\<rparr>
         else st)
      else if start_cell st = None then
        st\<lparr>start_cell := Some (r, c), cur_grid := set_cell (cur_grid st) r c START,
           reward_cells := reward_cells st - {(r, c)}\<rparr>
      else if goal_cell st = None \<and> Some (r, c) \<noteq> start_cell st then
        st\<lparr>goal_cell := Some (r, c), cur_grid := set_cell (cur_grid st) r c GOAL,
           reward_cells := reward_cells st - {(r, c)}\<rparr>
      else if Some (r, c) \<noteq> start_cell st \<and> Some (r, c) \<noteq> goal_cell st then
        (let st1 = st\<lparr>cur_grid := set_cell (cur_grid st) r c WALL,
                        reward_cells := reward_cells st - {(r, c)}\<rparr>
         in if (r, c) \<in> set (ghost_positions st1) then
              st1\<lparr>ghost_positions := remove1 (r, c) (ghost_positions st1)\<rparr>
            else st1)
      else st)"

definition right_click :: "cell \<Rightarrow> game \<Rightarrow> game" where
  "right_click cell st =
     (let r = fst cell; c = snd cell;
          st1 = (if Some (r, c) = start_cell st then st\<lparr>start_cell := None\<rparr>
                 else if Some (r, c) = goal_cell st then st\<lparr>goal_cell := None\<rparr>
                 else st);
          st2 = (if (r, c) \<in> set (ghost_positions st1)
                 then st1\<lparr>ghost_positions := remove1 (r, c) (ghost_positions st1)\<rparr>
                 else st1)
      in st2\<lparr>cur_grid := set_cell (cur_grid st2) r c EMPTY,
             reward_cells := reward_cells st2 - {(r, c)}\<rparr>)"

text \<open>
  The mouse block of the loop: \<open>left\<close> and \<open>right\<close> are the pressed buttons and
  \<open>pos\<close> the pointer position in pixels.
\<close>

definition mouse_edit :: "bool \<Rightarrow> bool \<Rightarrow> int \<times> int \<Rightarrow> bool \<Rightarrow> bool \<Rightarrow> game \<Rightarrow> game" where
  "mouse_edit left right pos shift key_g st =
     (if \<not> playing st \<and> \<not> game_over st then
        (if left then
           (case get_cell_from_mouse pos of None \<Rightarrow> st | Some cell \<Rightarrow> left_click cell shift key_g st)
         else if right then
           (case get_cell_from_mouse pos of None \<Rightarrow> st | Some cell \<Rightarrow> right_click cell st)
         else st)
      else st)"

text \<open>
  The game logic of one pass of the loop. \<open>pac_move\<close> is the Pac-Man block at clock value
  \<open>now\<close>, \<open>ghost_move\<close> the ghost block, \<open>check_collision\<close> the final test, whose
  end time is a second reading \<open>now2\<close> of the clock. A result \<open>None\<close> stands for a
  planner call that does not return.
\<close>

definition pac_move :: "int \<Rightarrow> game \<Rightarrow> game option" where
  "pac_move now st =
     (let st0 = st\<lparr>last_pac_move_time := now\<rparr>;
          blocked = (if ghost_positions st0 \<noteq> [] then set (ghost_positions st0) else {})
      in case astar (cur_grid st0) (pac_pos st0) (goal_cell st0) (Some blocked) of
           None \<Rightarrow> None
         | Some path \<Rightarrow>
             Some (if path = None \<or> length (the path) < 2 then
                     st0\<lparr>playing := False, game_over := True, reason := Some ''stuck'',
                         final_score := Some (score st0), end_time := Some now\<rparr>
                   else
                     let next_cell = the path ! 1;
                         st1 = st0\<lparr>pac_pos := Some next_cell\<rparr>;
                         st2 = (if next_cell \<in> reward_cells st1
                                then st1\<lparr>score := score st1 + 1,
                                         reward_cells := reward_cells st1 - {next_cell}\<rparr>
                                else st1)
                     in if pac_pos st2 = goal_cell st2 then
                          st2\<lparr>playing := False, game_over := True, reason := Some ''win'',
                              final_score := Some (score st2), end_time := Some now\<rparr>
                        else st2))"

fun ghost_steps :: "grid \<Rightarrow> cell option \<Rightarrow> cell list \<Rightarrow> cell list option" where
  "ghost_steps grid pac [] = Some []"
| "ghost_steps grid pac (gpos # rest) =
     (case bfs_path grid (Some gpos) pac of
        None \<Rightarrow> None
      | Some path_g \<Rightarrow>
          (case ghost_steps grid pac rest of
             None \<Rightarrow> None
           | Some new_rest \<Rightarrow>
               Some ((if path_g \<noteq> None \<and> length (the path_g) \<ge> 2 then the path_g ! 1 else gpos)
                     # new_rest)))"

definition ghost_move :: "int \<Rightarrow> game \<Rightarrow> game option" where
  "ghost_move now st =
     (case ghost_steps (cur_grid st) (pac_pos st) (ghost_positions st) of
        None \<Rightarrow> None
      | Some new_ghost_positions \<Rightarrow>
          Some (st\<lparr>last_ghost_move_time := now, ghost_positions := new_ghost_positions\<rparr>))"

definition check_collision :: "int \<Rightarrow> game \<Rightarrow> game" where
  "check_collision now2 st =
     (if pac_pos st \<noteq> None \<and> ghost_positions st \<noteq> [] \<and> the (pac_pos st) \<in> set (ghost_positions st) then
        st\<lparr>playing := False, game_over := True, reason := Some ''ghost'',
           final_score := Some (score st), end_time := Some now2\<rparr>
      else st)"

definition game_logic :: "int \<Rightarrow> int \<Rightarrow> game \<Rightarrow> game option" where
  "game_logic now now2 st =
     (if playing st \<and> \<not> game_over st \<and> pac_pos st \<noteq> None then
        (case (if now - last_pac_move_time st \<ge> PAC_MOVE_INTERVAL then pac_move now st else Some st) of
           None \<Rightarrow> None
         | Some st1 \<Rightarrow>
             (case (if ghost_positions st1 \<noteq> [] \<and> pac_pos st1 \<noteq> None
                       \<and> now - last_ghost_move_time st1 \<ge> GHOST_MOVE_INTERVAL
                    then ghost_move now st1 else Some st1) of
                None \<Rightarrow> None
              | Some st2 \<Rightarrow> Some (check_collision now2 st2)))
      else Some st)"

section \<open>Notions used in the statements\<close>

definition adjacent :: "cell \<Rightarrow> cell \<Rightarrow> bool" where
  "adjacent a b \<longleftrightarrow> \<bar>fst a - fst b\<bar> + \<bar>snd a - snd b\<bar> = 1"

definition walkable :: "grid \<Rightarrow> cell set \<Rightarrow> cell \<Rightarrow> bool" where
  "walkable grid blocked p \<longleftrightarrow> in_bounds p \<and> cell_at grid (fst p) (snd p) \<noteq> WALL \<and> p \<notin> blocked"

text \<open>
  A path whose steps are moves to 4-adjacent walkable cells. The first cell is not tested.
\<close>

fun path_ok :: "grid \<Rightarrow> cell set \<Rightarrow> cell list \<Rightarrow> bool" where
  "path_ok grid blocked (a # b # rest) \<longleftrightarrow>
     adjacent a b \<and> walkable grid blocked b \<and> path_ok grid blocked (b # rest)"
| "path_ok grid blocked _ \<longleftrightarrow> True"

definition path_from_to :: "grid \<Rightarrow> cell set \<Rightarrow> cell \<Rightarrow> cell \<Rightarrow> cell list \<Rightarrow> bool" where
  "path_from_to grid blocked s t p \<longleftrightarrow> p \<noteq> [] \<and> hd p = s \<and> last p = t \<and> path_ok grid blocked p"

text \<open>
  Invariant of the A* loop: the predecessor of a cell is an adjacent cell with a smaller
  finite score, every cell with a finite score but the start has a predecessor, and the
  cells in the heap have finite scores.
\<close>

definition astar_inv :: "grid \<Rightarrow> cell set \<Rightarrow> cell \<Rightarrow> astar_state \<Rightarrow> bool" where
  "astar_inv grid blocked start st \<longleftrightarrow>
     g_score st start = 0 \<and>
     came_from st start = None \<and>
     (\<forall>n p. came_from st n = Some p \<longrightarrow>
        walkable grid blocked n \<and> adjacent p n \<and> g_score st p + 1 \<le> g_score st n \<and> g_score st n \<noteq> \<infinity>) \<and>
     (\<forall>n. g_score st n \<noteq> \<infinity> \<longrightarrow> n \<noteq> start \<longrightarrow> came_from st n \<noteq> None) \<and>
     (\<forall>e \<in> set (open_set st). g_score st (snd (snd e)) \<noteq> \<infinity>)"

text \<open>Two grids and blocked sets that differ at most at the cell \<open>s\<close>.\<close>

definition same_except :: "cell \<Rightarrow> grid \<Rightarrow> cell set \<Rightarrow> grid \<Rightarrow> cell set \<Rightarrow> bool" where
  "same_except s grid' blocked' grid blocked \<longleftrightarrow>
     (\<forall>p. in_bounds p \<and> p \<noteq> s \<longrightarrow> cell_at grid' (fst p) (snd p) = cell_at grid (fst p) (snd p)) \<and>
     (\<forall>p. p \<noteq> s \<longrightarrow> (p \<in> blocked') = (p \<in> blocked))"

text \<open>
  The invariant of the breadth-first loop, for a labelling \<open>dep\<close> of the visited cells
  by their depth: the queue is sorted by depth and spans at most two depths, the cells taken
  out of the queue have all their walkable neighbours visited, and the goal has not been
  taken out. \<open>bfs_mid\<close> is the invariant while the neighbours of \<open>u\<close> are visited,
  \<open>ds\<close> being the moves already made.
\<close>

definition bfs_tree :: "grid \<Rightarrow> cell \<Rightarrow> (cell \<Rightarrow> nat) \<Rightarrow> cell set \<Rightarrow> (cell \<rightharpoonup> cell) \<Rightarrow> bool" where
  "bfs_tree grid start dep V P \<longleftrightarrow>
     start \<in> V \<and> dep start = 0 \<and> P start = None \<and>
     (\<forall>v\<in>V. v \<noteq> start \<longrightarrow>
        (\<exists>x. P v = Some x \<and> x \<in> V \<and> adjacent x v \<and> walkable grid {} v \<and> dep v = Suc (dep x)))"

definition bfs_inv :: "grid \<Rightarrow> cell \<Rightarrow> cell \<Rightarrow> (cell \<Rightarrow> nat) \<Rightarrow> bfs_state \<Rightarrow> bool" where
  "bfs_inv grid start goal dep s \<longleftrightarrow>
     (case s of (q, V, P) \<Rightarrow>
        bfs_tree grid start dep V P \<and>
        set q \<subseteq> V \<and> distinct q \<and>
        sorted (map dep q) \<and> (\<forall>x\<in>set q. dep x \<le> Suc (dep (hd q))) \<and>
        (\<forall>x\<in>V - set q. \<forall>w. adjacent x w \<and> walkable grid {} w \<longrightarrow> w \<in> V \<and> dep w \<le> Suc (dep x)) \<and>
        (\<forall>x\<in>V - set q. \<forall>y\<in>set q. dep x \<le> dep y) \<and>
        (goal \<in> V \<longrightarrow> goal \<in> set q))"

definition bfs_mid :: "grid \<Rightarrow> cell \<Rightarrow> cell \<Rightarrow> (cell \<Rightarrow> nat) \<Rightarrow> cell \<Rightarrow> cell set \<Rightarrow> bfs_state \<Rightarrow> bool" where
  "bfs_mid grid start goal dep u ds s \<longleftrightarrow>
     (case s of (q, V, P) \<Rightarrow>
        bfs_tree grid start dep V P \<and>
        set q \<subseteq> V \<and> distinct q \<and> u \<in> V \<and> u \<notin> set q \<and>
        sorted (map dep q) \<and> (\<forall>x\<in>set q. dep u \<le> dep x \<and> dep x \<le> Suc (dep u)) \<and>
        (\<forall>x\<in>V - set q - {u}. \<forall>w. adjacent x w \<and> walkable grid {} w \<longrightarrow> w \<in> V \<and> dep w \<le> Suc (dep x)) \<and>
        (\<forall>d\<in>ds. walkable grid {} (fst u + fst d, snd u + snd d) \<longrightarrow>
           (fst u + fst d, snd u + snd d) \<in> V \<and> dep (fst u + fst d, snd u + snd d) \<le> Suc (dep u)) \<and>
        (\<forall>x\<in>V - set q. dep x \<le> dep u) \<and>
        (goal \<in> V \<longrightarrow> goal \<in> set q))"

definition shortest_from_to :: "grid \<Rightarrow> cell \<Rightarrow> cell \<Rightarrow> cell list \<Rightarrow> bool" where
  "shortest_from_to grid s t p \<longleftrightarrow>
     path_from_to grid {} s t p \<and> (\<forall>p'. path_from_to grid {} s t p' \<longrightarrow> length p \<le> length p')"

text \<open>
  A level in which the shortest way from S to G leads downwards first; the two paths are
  given in grid coordinates, after the centering of the level.
\<close>

definition detour_level :: "string list" where
  "detour_level =
     [''############'',
      ''##G##....###'',
      ''##.##.##...#'',
      ''##....#..#.#'',
      ''#####....#S#'',
      ''########...#'',
      ''############'']"

definition detour_grid :: grid where
  "detour_grid = fst (load_lines detour_level)"

definition detour_short :: "cell list" where
  "detour_short = [(15, 19), (16, 19), (16, 18), (16, 17), (15, 17), (15, 16), (15, 15), (15, 14),
                   (14, 14), (14, 13), (14, 12), (14, 11), (13, 11), (12, 11)]"

definition detour_long :: "cell list" where
  "detour_long = [(15, 19), (14, 19), (13, 19), (13, 18), (13, 17), (12, 17), (12, 16), (12, 15),
                  (12, 14), (13, 14), (14, 14), (14, 13), (14, 12), (14, 11), (13, 11), (12, 11)]"

text \<open>
  The two outcomes of the Pac-Man block: the run ends as stuck, or the agent advances to
  \<open>next_cell\<close>; \<open>pac_blocked\<close> is the blocked set the block passes to the planner.
\<close>

definition stuck_state :: "int \<Rightarrow> game \<Rightarrow> game" where
  "stuck_state now st =
     st\<lparr>last_pac_move_time := now, playing := False, game_over := True, reason := Some ''stuck'',
        final_score := Some (score st), end_time := Some now\<rparr>"

definition pac_blocked :: "game \<Rightarrow> cell set" where
  "pac_blocked st = (if ghost_positions st \<noteq> [] then set (ghost_positions st) else {})"

definition advance_state :: "int \<Rightarrow> cell \<Rightarrow> game \<Rightarrow> game" where
  "advance_state now next_cell st =
     (let st1 = st\<lparr>last_pac_move_time := now, pac_pos := Some next_cell,
                   score := (if next_cell \<in> reward_cells st then score st + 1 else score st),
                   reward_cells := reward_cells st - {next_cell}\<rparr>
      in if Some next_cell = goal_cell st
         then st1\<lparr>playing := False, game_over := True, reason := Some ''win'',
                  final_score := Some (score st1), end_time := Some now\<rparr>
         else st1)"

text \<open>
  A state of the editor: the four corner ghosts are erased with right clicks, start (5, 5)
  and goal (5, 6) are placed, a ghost is added at (5, 7), and the run is started at clock 0.
\<close>

definition chase_demo :: game where
  "chase_demo =
     key_space 0
       (mouse_edit True False (150, 110) False True
         (mouse_edit True False (130, 110) False False
           (mouse_edit True False (110, 110) False False
             (mouse_edit False True (590, 590) False False
               (mouse_edit False True (10, 590) False False
                 (mouse_edit False True (590, 10) False False
                   (mouse_edit False True (10, 10) False False init_game)))))))"



text \<open>The Pac-Man block and the ghost block of one pass, each with its guard.\<close>

definition ghost_block :: "int \<Rightarrow> game \<Rightarrow> game option" where
  "ghost_block now st =
     (if ghost_positions st \<noteq> [] \<and> pac_pos st \<noteq> None
         \<and> GHOST_MOVE_INTERVAL \<le> now - last_ghost_move_time st
      then ghost_move now st else Some st)"

definition pac_block :: "int \<Rightarrow> game \<Rightarrow> game option" where
  "pac_block now st =
     (if PAC_MOVE_INTERVAL \<le> now - last_pac_move_time st then pac_move now st else Some st)"

text \<open>Consecutive passes of the loop without key or mouse input, at the given clock values.\<close>

fun run_ticks :: "(int \<times> int) list \<Rightarrow> game \<Rightarrow> game option" where
  "run_ticks [] st = Some st"
| "run_ticks (t # ts) st =
     (case game_logic (fst t) (snd t) st of None \<Rightarrow> None | Some st1 \<Rightarrow> run_ticks ts st1)"

text \<open>
  What one pass of the loop is made of: the handlers of the key events, the mouse block and
  the game logic. A run of the program applies them one after the other.
\<close>

datatype loop_input =
    KeyC
  | KeyL "string option"
  | KeySpace int
  | KeyR
  | Mouse bool bool "int \<times> int" bool bool
  | Logic int int

fun loop_step :: "loop_input \<Rightarrow> game \<Rightarrow> game option" where
  "loop_step KeyC st = Some (key_c st)"
| "loop_step (KeyL file) st = Some (key_l file st)"
| "loop_step (KeySpace now) st = Some (key_space now st)"
| "loop_step KeyR st = Some (key_r st)"
| "loop_step (Mouse left right pos shift key_g) st = Some (mouse_edit left right pos shift key_g st)"
| "loop_step (Logic now now2) st = game_logic now now2 st"

fun run_loop :: "loop_input list \<Rightarrow> game \<Rightarrow> game option" where
  "run_loop [] st = Some st"
| "run_loop (i # inputs) st =
     (case loop_step i st of None \<Rightarrow> None | Some st1 \<Rightarrow> run_loop inputs st1)"

text \<open>The game is running; and it is running before and after each step of a run.\<close>

definition running :: "game \<Rightarrow> bool" where
  "running st \<longleftrightarrow> playing st \<and> \<not> game_over st"

fun stays_running :: "loop_input list \<Rightarrow> game \<Rightarrow> bool" where
  "stays_running [] st = running st"
| "stays_running (i # inputs) st =
     (running st \<and> (case loop_step i st of None \<Rightarrow> False | Some st1 \<Rightarrow> stays_running inputs st1))"

text \<open>
  A state of the editor: corner ghosts erased, start (5, 5), goal (5, 7), a diamond placed
  at (5, 6) with a shift click, run started at clock 0.
\<close>

definition reward_demo :: game where
  "reward_demo =
     key_space 0
       (mouse_edit True False (130, 110) True False
         (mouse_edit True False (150, 110) False False
           (mouse_edit True False (110, 110) False False
             (mouse_edit False True (590, 590) False False
               (mouse_edit False True (10, 590) False False
                 (mouse_edit False True (590, 10) False False
                   (mouse_edit False True (10, 10) False False init_game)))))))"

text \<open>A state of the editor: start (1, 1), goal (2, 2), a wall at (5, 5), then a click with G on it.\<close>

definition ghost_on_wall_demo :: game where
  "ghost_on_wall_demo =
     mouse_edit True False (110, 110) False True
       (mouse_edit True False (110, 110) False False
         (mouse_edit True False (50, 50) False False
           (mouse_edit True False (30, 30) False False init_game)))"

text \<open>The kind a character stands for, and the cell that character (r, c) of the level goes to.\<close>

definition kind_of :: "char \<Rightarrow> cell_type" where
  "kind_of ch =
     (if ch = CHR ''#'' then WALL else if ch = CHR ''S'' then START
      else if ch = CHR ''G'' then GOAL else if ch = CHR ''D'' then REWARD else EMPTY)"

definition target :: "int \<Rightarrow> int \<Rightarrow> nat \<Rightarrow> nat \<Rightarrow> cell" where
  "target row_offset col_offset r c = (int r + row_offset, int c + col_offset)"

definition lv_grid :: "level \<Rightarrow> grid" where "lv_grid lv = fst lv"

definition lv_start :: "level \<Rightarrow> cell option" where "lv_start lv = fst (snd lv)"

definition lv_goal :: "level \<Rightarrow> cell option" where "lv_goal lv = fst (snd (snd lv))"

definition lv_rewards :: "level \<Rightarrow> cell set" where "lv_rewards lv = fst (snd (snd (snd lv)))"

definition lv_ghosts :: "level \<Rightarrow> cell list" where "lv_ghosts lv = snd (snd (snd (snd lv)))"

text \<open>The characters of a level with their positions, in the order of the two loops.\<close>

definition level_chars :: "string list \<Rightarrow> (nat \<times> nat \<times> char) list" where
  "level_chars lines =
     concat (map (\<lambda>rl. map (Pair (fst rl)) (List.enumerate 0 (snd rl))) (List.enumerate 0 lines))"

definition place1 :: "int \<Rightarrow> int \<Rightarrow> nat \<times> nat \<times> char \<Rightarrow> level \<Rightarrow> level" where
  "place1 ro co x lv = place_char ro co (fst x) (snd x) lv"

text \<open>
  The cells, in the order of the two loops, that the characters equal to \<open>ch\<close> go to,
  those out of bounds left out.
\<close>

definition char_cells :: "string list \<Rightarrow> int \<Rightarrow> int \<Rightarrow> char \<Rightarrow> cell list" where
  "char_cells lines ro co ch =
     [(int r + ro, int c + co). r \<leftarrow> [0..<length lines], c \<leftarrow> [0..<length (lines ! r)],
        lines ! r ! c = ch, in_bounds (int r + ro, int c + co)]"

text \<open>
  A level file with the line ends of three systems and a line of blanks: \<open>S.G\<close>, CR LF, two
  blanks, CR LF, \<open>#DX\<close>, CR, \<open>X..\<close>, LF.
\<close>

definition mixed_newline_level :: string where
  "mixed_newline_level =
     ''S.G'' @ [CHR 0x0D, CHR 0x0A] @ ''  '' @ [CHR 0x0D, CHR 0x0A] @ ''#DX'' @ [CHR 0x0D]
       @ ''X..'' @ [CHR 0x0A]"

definition cells_of :: "int \<Rightarrow> int \<Rightarrow> char \<Rightarrow> (nat \<times> nat \<times> char) list \<Rightarrow> cell list" where
  "cells_of ro co ch cs =
     map (\<lambda>x. target ro co (fst x) (fst (snd x)))
       (filter (\<lambda>x. snd (snd x) = ch \<and> in_bounds (target ro co (fst x) (fst (snd x)))) cs)"

section \<open>Paths on the grid\<close>

lemma adjacent_step: "d \<in> set directions \<Longrightarrow> adjacent c (fst c + fst d, snd c + snd d)"
  by (auto simp: directions_def adjacent_def)

lemma relax_inv:
  assumes inv: "astar_inv grid blocked start st"
    and cur: "g_score st current \<noteq> \<infinity>"
    and d: "d \<in> set directions"
  shows "astar_inv grid blocked start (relax grid goal blocked current d st)
       \<and> g_score (relax grid goal blocked current d st) current \<noteq> \<infinity>"
proof -
  let ?nb = "(fst current + fst d, snd current + snd d)"
  let ?t = "g_score st current + 1"
  show ?thesis
  proof (cases "in_bounds ?nb \<and> cell_at grid (fst ?nb) (snd ?nb) \<noteq> WALL \<and> ?nb \<notin> blocked \<and> ?t < g_score st ?nb")
    case False
    then have "relax grid goal blocked current d st = st"
      by (auto simp: relax_def Let_def in_bounds_def)
    then show ?thesis using inv cur by simp
  next
    case True
    then have w: "walkable grid blocked ?nb" by (simp add: walkable_def)
    from True have lt: "?t < g_score st ?nb" by simp
    obtain k where k: "g_score st current = enat k" using cur by auto
    have tk: "?t = enat (Suc k)" using k by (simp add: one_enat_def)
    have ne_start: "?nb \<noteq> start"
    proof
      assume "?nb = start"
      then have "g_score st ?nb = 0" using inv by (simp add: astar_inv_def)
      with lt show False by simp
    qed
    have adj: "adjacent current ?nb" using adjacent_step[OF d] .
    then have ne_cur: "?nb \<noteq> current" by (cases current) (auto simp: adjacent_def)
    define st1 where "st1 = st\<lparr>came_from := (came_from st)(?nb \<mapsto> current),
                          g_score := (g_score st)(?nb := ?t),
                          f_score := (f_score st)(?nb := ?t + enat (nat (heuristic ?nb goal)))\<rparr>"
    have gle: "\<And>n. g_score st1 n \<le> g_score st n"
      using lt by (auto simp: st1_def intro: less_imp_le)
    have gfin: "\<And>n. g_score st n \<noteq> \<infinity> \<Longrightarrow> g_score st1 n \<noteq> \<infinity>"
      using tk by (simp add: st1_def)
    have cfp: "\<And>n p. came_from st n = Some p \<Longrightarrow>
        walkable grid blocked n \<and> adjacent p n \<and> g_score st p + 1 \<le> g_score st n \<and> g_score st n \<noteq> \<infinity>"
      using inv unfolding astar_inv_def by blast
    have dom: "\<And>n. g_score st n \<noteq> \<infinity> \<Longrightarrow> n \<noteq> start \<Longrightarrow> came_from st n \<noteq> None"
      using inv unfolding astar_inv_def by blast
    have cf1: "\<And>n. came_from st1 n = (if n = ?nb then Some current else came_from st n)"
      by (simp add: st1_def)
    have g1: "\<And>n. g_score st1 n = (if n = ?nb then ?t else g_score st n)"
      by (simp add: st1_def)
    have inv1: "astar_inv grid blocked start st1"
      unfolding astar_inv_def
    proof (intro conjI allI impI ballI)
      show "g_score st1 start = 0" using inv ne_start by (simp add: g1 astar_inv_def)
      show "came_from st1 start = None" using inv ne_start by (simp add: cf1 astar_inv_def)
    next
      fix n p assume cf: "came_from st1 n = Some p"
      show "walkable grid blocked n"
        using cf cfp[of n p] w by (cases "n = ?nb") (simp_all add: cf1)
      show "adjacent p n"
        using cf cfp[of n p] adj by (cases "n = ?nb") (simp_all add: cf1)
      show "g_score st1 n \<noteq> \<infinity>"
        using cf cfp[of n p] tk by (cases "n = ?nb") (simp_all add: cf1 g1)
      show "g_score st1 p + 1 \<le> g_score st1 n"
      proof (cases "n = ?nb")
        case True
        then have "p = current" using cf by (simp add: cf1)
        then show ?thesis using True ne_cur by (simp add: g1)
      next
        case False
        then have "came_from st n = Some p" using cf by (simp add: cf1)
        then have "g_score st p + 1 \<le> g_score st n" using cfp by blast
        moreover have "g_score st1 p + 1 \<le> g_score st p + 1" using gle[of p] by (rule add_right_mono)
        moreover have "g_score st1 n = g_score st n" using False by (simp add: g1)
        ultimately show ?thesis by (simp only: order_trans)
      qed
    next
      fix n assume "g_score st1 n \<noteq> \<infinity>" "n \<noteq> start"
      then show "came_from st1 n \<noteq> None"
        using dom[of n] by (cases "n = ?nb") (simp_all add: cf1 g1)
    next
      fix e assume "e \<in> set (open_set st1)"
      then have "g_score st (snd (snd e)) \<noteq> \<infinity>" using inv by (simp add: st1_def astar_inv_def)
      then show "g_score st1 (snd (snd e)) \<noteq> \<infinity>" by (rule gfin)
    qed
    define st2 where "st2 = st1\<lparr>counter := counter st1 + 1,
                      open_set := heappush (open_set st1) (?t + enat (nat (heuristic ?nb goal)), counter st1 + 1, ?nb),
                      in_open := insert ?nb (in_open st1)\<rparr>"
    have "g_score st1 ?nb \<noteq> \<infinity>" using tk by (simp add: g1)
    then have inv2: "astar_inv grid blocked start st2"
      using inv1 unfolding astar_inv_def st2_def
      by (simp add: heappush_def)
    have r: "relax grid goal blocked current d st = (if ?nb \<notin> in_open st1 then st2 else st1)"
      using True by (simp add: relax_def Let_def in_bounds_def st1_def st2_def)
    have "g_score st1 current \<noteq> \<infinity>" using gfin[OF cur] .
    moreover have "g_score st2 current = g_score st1 current" by (simp add: st2_def)
    ultimately show ?thesis using r inv1 inv2 by simp
  qed
qed

lemma fold_relax_inv:
  assumes "astar_inv grid blocked start st" "g_score st current \<noteq> \<infinity>" "set ds \<subseteq> set directions"
  shows "astar_inv grid blocked start (fold (relax grid goal blocked current) ds st)"
  using assms
proof (induction ds arbitrary: st)
  case Nil
  then show ?case by simp
next
  case (Cons d ds)
  have "d \<in> set directions" using Cons.prems(3) by simp
  from relax_inv[OF Cons.prems(1,2) this, of goal] Cons.prems(3) Cons.IH
  show ?case by simp
qed

lemma expand_inv:
  "astar_inv grid blocked start st \<Longrightarrow> g_score st current \<noteq> \<infinity> \<Longrightarrow>
   astar_inv grid blocked start (expand grid goal blocked current st)"
  unfolding expand_def by (rule fold_relax_inv) auto

lemma astar_inv_dom:
  "astar_inv grid blocked start st \<Longrightarrow> g_score st n \<noteq> \<infinity> \<Longrightarrow> n \<noteq> start \<Longrightarrow> came_from st n \<noteq> None"
  unfolding astar_inv_def by blast

lemma astar_inv_came_from:
  "astar_inv grid blocked start st \<Longrightarrow> came_from st n = Some p \<Longrightarrow>
   walkable grid blocked n \<and> adjacent p n \<and> g_score st p + 1 \<le> g_score st n"
  unfolding astar_inv_def by blast

lemma astar_inv_open:
  "astar_inv grid blocked start st \<Longrightarrow> e \<in> set (open_set st) \<Longrightarrow> g_score st (snd (snd e)) \<noteq> \<infinity>"
  unfolding astar_inv_def by blast

lemma astar_inv_cong:
  assumes "astar_inv grid blocked start st" "g_score st' = g_score st" "came_from st' = came_from st"
    "set (open_set st') \<subseteq> set (open_set st)"
  shows "astar_inv grid blocked start st'"
  using assms(1,4) unfolding astar_inv_def assms(2,3) by blast

lemma reconstruct_sound:
  assumes inv: "astar_inv grid blocked start st"
  shows "g_score st n = enat k \<Longrightarrow> acc \<noteq> [] \<Longrightarrow> last acc = n \<Longrightarrow> path_ok grid blocked (rev acc) \<Longrightarrow>
     \<exists>p. reconstruct_loop (came_from st) n acc = Some p \<and> p \<noteq> [] \<and> hd p = start \<and> last p = hd acc
         \<and> path_ok grid blocked p"
proof (induction k arbitrary: n acc rule: less_induct)
  case (less k)
  show ?case
  proof (cases "came_from st n")
    case None
    have "n = start"
      using astar_inv_dom[OF inv, of n] less.prems(1) None by auto
    moreover have "reconstruct_loop (came_from st) n acc = Some (rev acc)"
      using None by (subst reconstruct_loop.simps) simp
    ultimately show ?thesis
      using less.prems by (simp add: hd_rev last_rev)
  next
    case (Some p)
    have cfp: "walkable grid blocked n \<and> adjacent p n \<and> g_score st p + 1 \<le> g_score st n"
      using astar_inv_came_from[OF inv Some] .
    then have "g_score st p + 1 \<le> enat k" using less.prems(1) by simp
    then obtain j where j: "g_score st p = enat j" "j < k"
      by (cases "g_score st p") (auto simp: one_enat_def)
    obtain rest where rest: "rev acc = n # rest"
      using less.prems(2,3) by (cases "rev acc") (auto simp: last_rev[symmetric] hd_rev)
    have ok: "path_ok grid blocked (rev (acc @ [p]))"
      using rest cfp less.prems(4) by simp
    have "\<exists>q. reconstruct_loop (came_from st) p (acc @ [p]) = Some q \<and> q \<noteq> [] \<and> hd q = start
            \<and> last q = hd (acc @ [p]) \<and> path_ok grid blocked q"
      by (rule less.IH[OF j(2) j(1)]) (use ok in simp_all)
    moreover have "reconstruct_loop (came_from st) n acc = reconstruct_loop (came_from st) p (acc @ [p])"
      using Some by (subst reconstruct_loop.simps) simp
    ultimately show ?thesis using less.prems(2) by simp
  qed
qed

lemma heappop_subset: "set (snd (heappop h)) \<subseteq> set h"
  using set_remove1_subset[of "heap_min h" h] by (simp add: heappop_def)

lemma astar_loop_unfold:
  assumes "open_set st \<noteq> []"
    and "current = snd (snd (fst (heappop (open_set st))))"
    and "st1 = st\<lparr>open_set := snd (heappop (open_set st)), in_open := in_open st - {current}\<rparr>"
  shows "astar_loop grid start goal blocked st =
     (if current = goal then map_option Some (reconstruct_path (came_from st1) goal start)
      else astar_loop grid start goal blocked (expand grid goal blocked current st1))"
  using assms by (subst astar_loop.simps) (simp add: Let_def)

lemma astar_loop_sound:
  "astar_inv grid blocked start st \<Longrightarrow>
   \<exists>r. astar_loop grid start goal blocked st = Some r \<and>
       (\<forall>p. r = Some p \<longrightarrow> path_from_to grid blocked start goal p)"
proof (induction grid start goal blocked st rule: astar_loop.induct)
  case (1 grid start goal blocked st)
  show ?case
  proof (cases "open_set st = []")
    case True
    then show ?thesis by (subst astar_loop.simps) simp
  next
    case False
    define current where "current = snd (snd (fst (heappop (open_set st))))"
    define st1 where "st1 = st\<lparr>open_set := snd (heappop (open_set st)), in_open := in_open st - {current}\<rparr>"
    have "fst (heappop (open_set st)) \<in> set (open_set st)"
      using heap_min_in[OF False] by (simp add: heappop_def)
    then have gcur: "g_score st current \<noteq> \<infinity>"
      using astar_inv_open[OF "1.prems"] unfolding current_def by blast
    have inv1: "astar_inv grid blocked start st1"
      by (rule astar_inv_cong[OF "1.prems"]) (simp_all add: st1_def heappop_subset)
    have gcur1: "g_score st1 current \<noteq> \<infinity>" using gcur by (simp add: st1_def)
    show ?thesis
    proof (cases "current = goal")
      case True
      obtain k where k: "g_score st1 goal = enat k" using gcur1 True by auto
      have "\<exists>p. reconstruct_loop (came_from st1) goal [goal] = Some p \<and> p \<noteq> [] \<and> hd p = start
              \<and> last p = hd [goal] \<and> path_ok grid blocked p"
        by (rule reconstruct_sound[OF inv1 k]) simp_all
      then obtain p where p: "reconstruct_path (came_from st1) goal start = Some p"
          "path_from_to grid blocked start goal p"
        by (auto simp: reconstruct_path_def path_from_to_def)
      have "astar_loop grid start goal blocked st = Some (Some p)"
        using True p(1) by (simp add: astar_loop_unfold[OF False current_def st1_def])
      then show ?thesis using p(2) by simp
    next
      case ne: False
      have "astar_inv grid blocked start (expand grid goal blocked current st1)"
        by (rule expand_inv[OF inv1 gcur1])
      from "1.IH"[OF False current_def st1_def ne this]
      obtain r where r: "astar_loop grid start goal blocked (expand grid goal blocked current st1) = Some r"
        "\<forall>p. r = Some p \<longrightarrow> path_from_to grid blocked start goal p" by blast
      have "astar_loop grid start goal blocked st = Some r"
        using ne r(1) by (simp add: astar_loop_unfold[OF False current_def st1_def])
      then show ?thesis using r(2) by simp
    qed
  qed
qed

lemma astar_init_inv:
  "astar_inv grid blocked s \<lparr>g_score = (\<lambda>_. \<infinity>)(s := 0), f_score = fs,
        open_set = heappush [] (h, 0, s), came_from = Map.empty, in_open = {s}, counter = 0\<rparr>"
  by (simp add: astar_inv_def heappush_def)

lemma astar_sound:
  "\<exists>r. astar grid start goal blocked = Some r \<and>
       (\<forall>p. r = Some p \<longrightarrow> start \<noteq> None \<and> goal \<noteq> None \<and>
          path_from_to grid (case blocked of None \<Rightarrow> {} | Some b \<Rightarrow> b) (the start) (the goal) p)"
proof (cases start)
  case None
  then show ?thesis by (simp add: astar_def)
next
  case s: (Some s)
  show ?thesis
  proof (cases goal)
    case None
    then show ?thesis using s by (simp add: astar_def)
  next
    case g: (Some g)
    show ?thesis
      using s g astar_loop_sound[OF astar_init_inv]
      by (simp add: astar_def Let_def)
  qed
qed

lemma astar_same_cell: "astar grid (Some s) (Some s) blocked = Some (Some [s])"
proof -
  have r: "reconstruct_path Map.empty s s = Some [s]"
    unfolding reconstruct_path_def by (subst reconstruct_loop.simps) simp
  show ?thesis
    unfolding astar_def
    by (simp add: Let_def astar_loop.simps[of _ _ _ _ "\<lparr>g_score = _, f_score = _, open_set = _, came_from = _, in_open = _, counter = _\<rparr>"]
          heappush_def heappop_def heap_min_def r)
qed

lemma path_ok_nth:
  "path_ok grid blocked p \<Longrightarrow> Suc i < length p \<Longrightarrow>
   adjacent (p ! i) (p ! Suc i) \<and> walkable grid blocked (p ! Suc i)"
proof (induction grid blocked p arbitrary: i rule: path_ok.induct)
  case (1 grid blocked a b rest)
  then show ?case by (cases i) auto
qed simp_all

lemma path_ok_last_walkable:
  "path_ok grid blocked p \<Longrightarrow> 2 \<le> length p \<Longrightarrow> walkable grid blocked (last p)"
proof (induction grid blocked p rule: path_ok.induct)
  case (1 grid blocked a b rest)
  then show ?case by (cases rest) auto
qed simp_all

lemma path_from_to_distinct_ends:
  "path_from_to grid blocked s t p \<Longrightarrow> s \<noteq> t \<Longrightarrow> walkable grid blocked t"
proof -
  assume a: "path_from_to grid blocked s t p" "s \<noteq> t"
  then have "2 \<le> length p"
    by (cases p; cases "tl p") (auto simp: path_from_to_def)
  then show ?thesis using a path_ok_last_walkable[of grid blocked p] by (simp add: path_from_to_def)
qed

lemma relax_start_indep:
  assumes g0: "g_score st start = 0"
    and same: "same_except start grid' blocked' grid blocked"
  shows "relax grid' goal blocked' current d st = relax grid goal blocked current d st
       \<and> g_score (relax grid goal blocked current d st) start = 0"
proof (cases "(fst current + fst d, snd current + snd d) = start")
  case True
  then have "\<not> g_score st current + 1 < g_score st (fst current + fst d, snd current + snd d)"
    using g0 by simp
  then have "relax grid' goal blocked' current d st = st" "relax grid goal blocked current d st = st"
    by (simp_all add: relax_def Let_def)
  then show ?thesis using g0 by simp
next
  case False
  let ?nb = "(fst current + fst d, snd current + snd d)"
  have b: "(?nb \<in> blocked') = (?nb \<in> blocked)"
    using same False unfolding same_except_def by blast
  have c: "in_bounds ?nb \<Longrightarrow> cell_at grid' (fst ?nb) (snd ?nb) = cell_at grid (fst ?nb) (snd ?nb)"
    using same False unfolding same_except_def by blast
  have "relax grid' goal blocked' current d st = relax grid goal blocked current d st"
  proof (cases "in_bounds ?nb")
    case True
    then show ?thesis using b c by (simp add: relax_def Let_def)
  next
    case False
    then show ?thesis by (simp add: relax_def Let_def in_bounds_def)
  qed
  moreover have "g_score (relax grid goal blocked current d st) start = 0"
    using g0 False by (simp add: relax_def Let_def)
  ultimately show ?thesis by simp
qed

lemma fold_relax_start_indep:
  assumes "g_score st start = 0" "same_except start grid' blocked' grid blocked"
  shows "fold (relax grid' goal blocked' current) ds st = fold (relax grid goal blocked current) ds st
       \<and> g_score (fold (relax grid goal blocked current) ds st) start = 0"
  using assms(1)
proof (induction ds arbitrary: st)
  case Nil
  then show ?case by simp
next
  case (Cons d ds)
  from relax_start_indep[OF Cons.prems assms(2), of goal current d] Cons.IH
  show ?case by simp
qed

lemma astar_loop_start_indep:
  "g_score st start = 0 \<Longrightarrow> same_except start grid' blocked' grid blocked \<Longrightarrow>
   astar_loop grid' start goal blocked' st = astar_loop grid start goal blocked st"
proof (induction grid start goal blocked st rule: astar_loop.induct)
  case (1 grid start goal blocked st)
  show ?case
  proof (cases "open_set st = []")
    case True
    then show ?thesis by (simp add: astar_loop.simps)
  next
    case False
    define current where "current = snd (snd (fst (heappop (open_set st))))"
    define st1 where "st1 = st\<lparr>open_set := snd (heappop (open_set st)), in_open := in_open st - {current}\<rparr>"
    have g1: "g_score st1 start = 0" using "1.prems"(1) by (simp add: st1_def)
    note u = astar_loop_unfold[OF False current_def st1_def]
    show ?thesis
    proof (cases "current = goal")
      case True
      then show ?thesis by (simp add: u)
    next
      case ne: False
      have e: "expand grid' goal blocked' current st1 = expand grid goal blocked current st1"
        and g2: "g_score (expand grid goal blocked current st1) start = 0"
        using fold_relax_start_indep[OF g1 "1.prems"(2), of goal current directions]
        by (simp_all add: expand_def)
      from "1.IH"[OF False current_def st1_def ne g2 "1.prems"(2)] e ne
      show ?thesis by (simp add: u)
    qed
  qed
qed

lemma astar_start_indep:
  "same_except s grid' blocked' grid blocked \<Longrightarrow>
   astar grid' (Some s) goal (Some blocked') = astar grid (Some s) goal (Some blocked)"
  by (cases goal) (simp_all add: astar_def Let_def astar_loop_start_indep)

text \<open>
  C9. A path returned by \<open>astar\<close> begins at the start, ends at the goal, moves between
  4-adjacent cells, and each of its cells after the first is in bounds, not a wall and not
  blocked. The start cell is not validated: the result is the same on every grid and blocked
  set that differ from the given ones at the start cell only.
\<close>

theorem astar_path_valid:
  assumes "grid_ok grid"
    and "astar grid (Some start) (Some goal) (Some blocked) = Some (Some p)"
  shows "p \<noteq> [] \<and> hd p = start \<and> last p = goal
     \<and> (\<forall>i. Suc i < length p \<longrightarrow> adjacent (p ! i) (p ! Suc i))
     \<and> (\<forall>i. 0 < i \<and> i < length p \<longrightarrow> walkable grid blocked (p ! i))
     \<and> (\<forall>grid' blocked'. grid_ok grid' \<and> same_except start grid' blocked' grid blocked \<longrightarrow>
            astar grid' (Some start) (Some goal) (Some blocked') = Some (Some p))"
proof -
  from astar_sound[of grid "Some start" "Some goal" "Some blocked"] assms(2)
  have pf: "path_from_to grid blocked start goal p" by simp
  then have ok: "path_ok grid blocked p" by (simp add: path_from_to_def)
  have adj: "\<forall>i. Suc i < length p \<longrightarrow> adjacent (p ! i) (p ! Suc i)"
    using path_ok_nth[OF ok] by blast
  have wk: "\<forall>i. 0 < i \<and> i < length p \<longrightarrow> walkable grid blocked (p ! i)"
  proof (intro allI impI)
    fix i assume "0 < i \<and> i < length p"
    then obtain j where "i = Suc j" "Suc j < length p" by (cases i) auto
    then show "walkable grid blocked (p ! i)" using path_ok_nth[OF ok, of j] by simp
  qed
  have ind: "\<forall>grid' blocked'. grid_ok grid' \<and> same_except start grid' blocked' grid blocked \<longrightarrow>
            astar grid' (Some start) (Some goal) (Some blocked') = Some (Some p)"
    using astar_start_indep[of start _ _ grid blocked "Some goal"] assms(2) by simp
  show ?thesis using pf adj wk ind by (simp add: path_from_to_def)
qed

theorem astar_path_valid_witness:
  "grid_ok make_grid
   \<and> astar make_grid (Some (0, 0)) (Some (0, 1)) (Some {}) = Some (Some [(0, 0), (0, 1)])
   \<and> same_except (0, 0) make_grid {(0, 0)} make_grid {}
   \<and> astar make_grid (Some (0, 0)) (Some (0, 1)) (Some {(0, 0)}) = Some (Some [(0, 0), (0, 1)])
   \<and> adjacent ([(0, 0), (0, 1)] ! 0) ([(0, 0), (0, 1)] ! Suc 0)
   \<and> walkable make_grid {} ([(0, 0), (0, 1)] ! 1)"
proof -
  have a: "grid_ok make_grid" by code_simp
  have b: "astar make_grid (Some (0, 0)) (Some (0, 1)) (Some {}) = Some (Some [(0, 0), (0, 1)])"
    by code_simp
  have c: "same_except (0, 0) make_grid {(0, 0)} make_grid {}"
    by (simp add: same_except_def)
  from astar_path_valid[OF a b] a b c show ?thesis by auto
qed

text \<open>
  C8. \<open>astar\<close> returns \<open>None\<close> when the start or the goal is \<open>None\<close>, and when no
  path of walkable cells leads from the start to the goal; it returns \<open>[start]\<close> when
  start and goal are the same cell.
\<close>

theorem astar_none_or_single:
  assumes "grid_ok grid"
  shows "astar grid None goal blocked = Some None
     \<and> astar grid start None blocked = Some None
     \<and> ((\<forall>p. \<not> path_from_to grid b s g p) \<longrightarrow> astar grid (Some s) (Some g) (Some b) = Some None)
     \<and> astar grid (Some c) (Some c) blocked = Some (Some [c])"
proof -
  have 1: "astar grid None goal blocked = Some None" by (simp add: astar_def)
  have 2: "astar grid start None blocked = Some None" by (cases start) (simp_all add: astar_def)
  have 3: "(\<forall>p. \<not> path_from_to grid b s g p) \<longrightarrow> astar grid (Some s) (Some g) (Some b) = Some None"
  proof
    assume no: "\<forall>p. \<not> path_from_to grid b s g p"
    from astar_sound[of grid "Some s" "Some g" "Some b"]
    obtain r where r: "astar grid (Some s) (Some g) (Some b) = Some r"
      "\<forall>p. r = Some p \<longrightarrow> path_from_to grid b s g p" by auto
    then have "r = None" using no by (cases r) auto
    then show "astar grid (Some s) (Some g) (Some b) = Some None" using r(1) by simp
  qed
  show ?thesis using 1 2 3 astar_same_cell by simp
qed

theorem astar_none_or_single_witness:
  "grid_ok make_grid
   \<and> astar make_grid (Some (0, 0)) (Some (0, 1)) (Some {(0, 1)}) = Some None
   \<and> astar make_grid (Some (3, 4)) (Some (3, 4)) None = Some (Some [(3, 4)])"
proof -
  have a: "grid_ok make_grid" by code_simp
  have "\<not> walkable make_grid {(0, 1)} (0, 1)" by (simp add: walkable_def)
  then have h: "\<forall>p. \<not> path_from_to make_grid {(0, 1)} (0, 0) (0, 1) p"
    using path_from_to_distinct_ends[of make_grid "{(0, 1)}" "(0, 0)" "(0, 1)"] by auto
  from astar_none_or_single[OF a, where b = "{(0, 1)}" and s = "(0, 0)" and g = "(0, 1)"
      and c = "(3, 4)" and blocked = None] h a
  show ?thesis by simp
qed

section \<open>Correctness of the breadth-first search\<close>

lemma adjacent_dir:
  "adjacent a b \<Longrightarrow> \<exists>d\<in>set directions. b = (fst a + fst d, snd a + snd d)"
proof -
  assume "adjacent a b"
  then have "\<bar>fst a - fst b\<bar> + \<bar>snd a - snd b\<bar> = 1" by (simp add: adjacent_def)
  then have "(fst b = fst a + 1 \<and> snd b = snd a) \<or> (fst b = fst a - 1 \<and> snd b = snd a)
           \<or> (fst b = fst a \<and> snd b = snd a + 1) \<or> (fst b = fst a \<and> snd b = snd a - 1)"
    by arith
  then show ?thesis
    by (cases b) (auto simp: directions_def)
qed

lemma bfs_pop:
  assumes "bfs_inv grid start goal dep (u # rest, V, P)" "u \<noteq> goal"
  shows "bfs_mid grid start goal dep u {} (rest, V, P)"
proof -
  from assms(1) have
    t: "bfs_tree grid start dep V P" and
    sub: "set (u # rest) \<subseteq> V" and
    dis: "distinct (u # rest)" and
    srt: "sorted (map dep (u # rest))" and
    span: "\<forall>x\<in>set (u # rest). dep x \<le> Suc (dep u)" and
    exp: "\<forall>x\<in>V - set (u # rest). \<forall>w. adjacent x w \<and> walkable grid {} w \<longrightarrow> w \<in> V \<and> dep w \<le> Suc (dep x)" and
    low: "\<forall>x\<in>V - set (u # rest). \<forall>y\<in>set (u # rest). dep x \<le> dep y" and
    g: "goal \<in> V \<longrightarrow> goal \<in> set (u # rest)"
    unfolding bfs_inv_def by simp_all
  have a: "\<forall>x\<in>set rest. dep u \<le> dep x \<and> dep x \<le> Suc (dep u)"
    using srt span by auto
  have b: "\<forall>x\<in>V - set rest - {u}. \<forall>w. adjacent x w \<and> walkable grid {} w \<longrightarrow> w \<in> V \<and> dep w \<le> Suc (dep x)"
    using exp by auto
  have c: "\<forall>x\<in>V - set rest. dep x \<le> dep u"
  proof
    fix x assume "x \<in> V - set rest"
    then show "dep x \<le> dep u" using low by (cases "x = u") auto
  qed
  have d: "goal \<in> V \<longrightarrow> goal \<in> set rest" using g assms(2) by auto
  have s1: "set rest \<subseteq> V" "u \<in> V" using sub by simp_all
  have s2: "distinct rest" "u \<notin> set rest" using dis by simp_all
  have s3: "sorted (map dep rest)" using srt by simp
  show ?thesis
    unfolding bfs_mid_def prod.case using t s1 s2 s3 a b c d by blast
qed

lemma bfs_visit_cases:
  "bfs_visit grid u d (q, V, P) =
     (if walkable grid {} (fst u + fst d, snd u + snd d) \<and> (fst u + fst d, snd u + snd d) \<notin> V
      then (q @ [(fst u + fst d, snd u + snd d)], insert (fst u + fst d, snd u + snd d) V,
            P((fst u + fst d, snd u + snd d) \<mapsto> u))
      else (q, V, P))"
  by (simp add: bfs_visit_def walkable_def in_bounds_def Let_def)

lemma bfs_visit_mid:
  assumes m: "bfs_mid grid start goal dep u ds (q, V, P)" and d: "d \<in> set directions"
  shows "\<exists>dep'. bfs_mid grid start goal dep' u (insert d ds) (bfs_visit grid u d (q, V, P))"
proof -
  define w where "w = (fst u + fst d, snd u + snd d)"
  from m have
    t: "bfs_tree grid start dep V P" and
    sub: "set q \<subseteq> V" and
    dis: "distinct q" and
    uV: "u \<in> V" and
    uq: "u \<notin> set q" and
    srt: "sorted (map dep q)" and
    span: "\<forall>x\<in>set q. dep u \<le> dep x \<and> dep x \<le> Suc (dep u)" and
    exp: "\<forall>x\<in>V - set q - {u}. \<forall>w. adjacent x w \<and> walkable grid {} w \<longrightarrow> w \<in> V \<and> dep w \<le> Suc (dep x)" and
    expu: "\<forall>d\<in>ds. walkable grid {} (fst u + fst d, snd u + snd d) \<longrightarrow>
           (fst u + fst d, snd u + snd d) \<in> V \<and> dep (fst u + fst d, snd u + snd d) \<le> Suc (dep u)" and
    low: "\<forall>x\<in>V - set q. dep x \<le> dep u" and
    g: "goal \<in> V \<longrightarrow> goal \<in> set q"
    unfolding bfs_mid_def prod.case by blast+
  have adj: "adjacent u w" unfolding w_def using adjacent_step[OF d] .
  show ?thesis
  proof (cases "walkable grid {} w \<and> w \<notin> V")
    case False
    then have same: "bfs_visit grid u d (q, V, P) = (q, V, P)"
      by (simp add: bfs_visit_cases w_def)
    have "walkable grid {} w \<longrightarrow> w \<in> V \<and> dep w \<le> Suc (dep u)"
    proof
      assume "walkable grid {} w"
      then have wV: "w \<in> V" using False by simp
      have "dep w \<le> Suc (dep u)"
      proof (cases "w \<in> set q")
        case True
        then show ?thesis using span by simp
      next
        case False
        then have "dep w \<le> dep u" using low wV by simp
        then show ?thesis by simp
      qed
      then show "w \<in> V \<and> dep w \<le> Suc (dep u)" using wV by simp
    qed
    then have expu': "\<forall>d\<in>insert d ds. walkable grid {} (fst u + fst d, snd u + snd d) \<longrightarrow>
           (fst u + fst d, snd u + snd d) \<in> V \<and> dep (fst u + fst d, snd u + snd d) \<le> Suc (dep u)"
      using expu unfolding w_def by blast
    have "bfs_mid grid start goal dep u (insert d ds) (q, V, P)"
      unfolding bfs_mid_def prod.case using t sub dis uV uq srt span exp expu' low g by blast
    then show ?thesis using same by auto
  next
    case True
    then have wk: "walkable grid {} w" and wV: "w \<notin> V" by simp_all
    have new: "bfs_visit grid u d (q, V, P) = (q @ [w], insert w V, P(w \<mapsto> u))"
      using True by (simp add: bfs_visit_cases w_def)
    define dep' where "dep' = dep(w := Suc (dep u))"
    have old: "\<And>x. x \<in> V \<Longrightarrow> dep' x = dep x" using wV by (auto simp: dep'_def)
    have depw: "dep' w = Suc (dep u)" by (simp add: dep'_def)
    have wq: "w \<notin> set q" using sub wV by blast
    have wu: "w \<noteq> u" using uV wV by blast
    have tree: "start \<in> V" "dep start = 0" "P start = None"
      and par: "\<And>v. v \<in> V \<Longrightarrow> v \<noteq> start \<Longrightarrow>
        \<exists>x. P v = Some x \<and> x \<in> V \<and> adjacent x v \<and> walkable grid {} v \<and> dep v = Suc (dep x)"
      using t unfolding bfs_tree_def by blast+
    have ws: "w \<noteq> start" using tree(1) wV by blast
    have t': "bfs_tree grid start dep' (insert w V) (P(w \<mapsto> u))"
      unfolding bfs_tree_def
    proof (intro conjI ballI impI)
      show "start \<in> insert w V" using tree(1) by simp
      show "dep' start = 0" using old[OF tree(1)] tree(2) by simp
      show "(P(w \<mapsto> u)) start = None" using ws tree(3) by simp
    next
      fix v assume v: "v \<in> insert w V" "v \<noteq> start"
      show "\<exists>x. (P(w \<mapsto> u)) v = Some x \<and> x \<in> insert w V \<and> adjacent x v \<and> walkable grid {} v
               \<and> dep' v = Suc (dep' x)"
      proof (cases "v = w")
        case True
        have "(P(w \<mapsto> u)) w = Some u \<and> u \<in> insert w V \<and> adjacent u w \<and> walkable grid {} w
               \<and> dep' w = Suc (dep' u)"
          using uV adj wk depw old[OF uV] by simp
        then show ?thesis using True by blast
      next
        case False
        then have vV: "v \<in> V" using v(1) by simp
        from par[OF vV v(2)] obtain x where
          x: "P v = Some x" "x \<in> V" "adjacent x v" "walkable grid {} v" "dep v = Suc (dep x)" by blast
        have "(P(w \<mapsto> u)) v = Some x \<and> x \<in> insert w V \<and> adjacent x v \<and> walkable grid {} v
               \<and> dep' v = Suc (dep' x)"
          using x False old[OF vV] old[OF x(2)] by simp
        then show ?thesis by blast
      qed
    qed
    have sub': "set (q @ [w]) \<subseteq> insert w V" using sub by auto
    have dis': "distinct (q @ [w])" using dis wq by simp
    have uV': "u \<in> insert w V" using uV by simp
    have uq': "u \<notin> set (q @ [w])" using uq wu by simp
    have mapq: "map dep' q = map dep q" using old sub by (auto simp: subset_iff)
    have span': "\<forall>x\<in>set (q @ [w]). dep' u \<le> dep' x \<and> dep' x \<le> Suc (dep' u)"
    proof
      fix x assume "x \<in> set (q @ [w])"
      then consider "x \<in> set q" | "x = w" by auto
      then show "dep' u \<le> dep' x \<and> dep' x \<le> Suc (dep' u)"
      proof cases
        case 1
        then have "x \<in> V" using sub by blast
        then show ?thesis using span 1 old[OF uV] old[of x] by simp
      next
        case 2
        then show ?thesis using depw old[OF uV] by simp
      qed
    qed
    have srt0: "sorted (map dep q @ [Suc (dep u)])"
      using srt span by (auto simp: sorted_append)
    have mapq': "map dep' (q @ [w]) = map dep q @ [Suc (dep u)]"
      unfolding map_append mapq using depw by simp
    have srt': "sorted (map dep' (q @ [w]))"
      unfolding mapq' by (rule srt0)
    have exp': "\<forall>x\<in>insert w V - set (q @ [w]) - {u}. \<forall>y. adjacent x y \<and> walkable grid {} y \<longrightarrow>
                  y \<in> insert w V \<and> dep' y \<le> Suc (dep' x)"
    proof (intro ballI allI impI)
      fix x y assume x: "x \<in> insert w V - set (q @ [w]) - {u}" and y: "adjacent x y \<and> walkable grid {} y"
      have xV: "x \<in> V - set q - {u}" using x by auto
      then have "y \<in> V \<and> dep y \<le> Suc (dep x)" using exp y by blast
      then show "y \<in> insert w V \<and> dep' y \<le> Suc (dep' x)"
        using old[of y] old[of x] xV by simp
    qed
    have expu': "\<forall>e\<in>insert d ds. walkable grid {} (fst u + fst e, snd u + snd e) \<longrightarrow>
           (fst u + fst e, snd u + snd e) \<in> insert w V \<and> dep' (fst u + fst e, snd u + snd e) \<le> Suc (dep' u)"
    proof (intro ballI impI)
      fix e assume e: "e \<in> insert d ds" and we: "walkable grid {} (fst u + fst e, snd u + snd e)"
      define y where "y = (fst u + fst e, snd u + snd e)"
      have "y \<in> insert w V \<and> dep' y \<le> Suc (dep' u)"
      proof (cases "y = w")
        case True
        then show ?thesis using depw old[OF uV] by simp
      next
        case False
        then have "e \<noteq> d" unfolding y_def w_def by auto
        then have "e \<in> ds" using e by simp
        then have "y \<in> V \<and> dep y \<le> Suc (dep u)" using expu we unfolding y_def by blast
        then show ?thesis using old[of y] old[OF uV] by simp
      qed
      then show "(fst u + fst e, snd u + snd e) \<in> insert w V
          \<and> dep' (fst u + fst e, snd u + snd e) \<le> Suc (dep' u)"
        unfolding y_def .
    qed
    have low': "\<forall>x\<in>insert w V - set (q @ [w]). dep' x \<le> dep' u"
    proof
      fix x assume "x \<in> insert w V - set (q @ [w])"
      then have xV: "x \<in> V - set q" by auto
      then have "dep x \<le> dep u" using low by blast
      then show "dep' x \<le> dep' u" using old[of x] old[OF uV] xV by simp
    qed
    have g': "goal \<in> insert w V \<longrightarrow> goal \<in> set (q @ [w])" using g by auto
    have "bfs_mid grid start goal dep' u (insert d ds) (q @ [w], insert w V, P(w \<mapsto> u))"
      unfolding bfs_mid_def prod.case
      using t' sub' dis' uV' uq' srt' span' exp' expu' low' g' by blast
    then show ?thesis using new by auto
  qed
qed

lemma bfs_fold_mid:
  "bfs_mid grid start goal dep u ds s \<Longrightarrow> set es \<subseteq> set directions \<Longrightarrow>
   \<exists>dep'. bfs_mid grid start goal dep' u (ds \<union> set es) (fold (bfs_visit grid u) es s)"
proof (induction es arbitrary: dep ds s)
  case Nil
  then show ?case by auto
next
  case (Cons e es)
  obtain q V P where s: "s = (q, V, P)" by (cases s)
  have e: "e \<in> set directions" and es: "set es \<subseteq> set directions" using Cons.prems(2) by simp_all
  from bfs_visit_mid[OF Cons.prems(1)[unfolded s] e]
  obtain dep1 where "bfs_mid grid start goal dep1 u (insert e ds) (bfs_visit grid u e s)"
    unfolding s by blast
  from Cons.IH[OF this es]
  obtain dep2 where "bfs_mid grid start goal dep2 u (insert e ds \<union> set es) (fold (bfs_visit grid u) es (bfs_visit grid u e s))"
    by blast
  moreover have "insert e ds \<union> set es = ds \<union> set (e # es)" by auto
  ultimately show ?case by auto
qed

lemma bfs_mid_done:
  assumes "bfs_mid grid start goal dep u (set directions) (q, V, P)"
  shows "bfs_inv grid start goal dep (q, V, P)"
proof -
  from assms have
    t: "bfs_tree grid start dep V P" and
    sub: "set q \<subseteq> V" and
    dis: "distinct q" and
    uV: "u \<in> V" and
    uq: "u \<notin> set q" and
    srt: "sorted (map dep q)" and
    span: "\<forall>x\<in>set q. dep u \<le> dep x \<and> dep x \<le> Suc (dep u)" and
    exp: "\<forall>x\<in>V - set q - {u}. \<forall>w. adjacent x w \<and> walkable grid {} w \<longrightarrow> w \<in> V \<and> dep w \<le> Suc (dep x)" and
    expu: "\<forall>d\<in>set directions. walkable grid {} (fst u + fst d, snd u + snd d) \<longrightarrow>
           (fst u + fst d, snd u + snd d) \<in> V \<and> dep (fst u + fst d, snd u + snd d) \<le> Suc (dep u)" and
    low: "\<forall>x\<in>V - set q. dep x \<le> dep u" and
    g: "goal \<in> V \<longrightarrow> goal \<in> set q"
    unfolding bfs_mid_def prod.case by blast+
  have span': "\<forall>x\<in>set q. dep x \<le> Suc (dep (hd q))"
  proof
    fix x assume x: "x \<in> set q"
    then have "q \<noteq> []" by auto
    then have "hd q \<in> set q" by simp
    then have "dep u \<le> dep (hd q)" using span by blast
    moreover have "dep x \<le> Suc (dep u)" using span x by blast
    ultimately show "dep x \<le> Suc (dep (hd q))" by simp
  qed
  have exp': "\<forall>x\<in>V - set q. \<forall>w. adjacent x w \<and> walkable grid {} w \<longrightarrow> w \<in> V \<and> dep w \<le> Suc (dep x)"
  proof (intro ballI allI impI)
    fix x w assume x: "x \<in> V - set q" and w: "adjacent x w \<and> walkable grid {} w"
    show "w \<in> V \<and> dep w \<le> Suc (dep x)"
    proof (cases "x = u")
      case True
      from w True adjacent_dir[of u w] obtain d where "d \<in> set directions" "w = (fst u + fst d, snd u + snd d)"
        by blast
      then show ?thesis using expu w True by blast
    next
      case False
      then show ?thesis using exp x w by blast
    qed
  qed
  have low': "\<forall>x\<in>V - set q. \<forall>y\<in>set q. dep x \<le> dep y"
  proof (intro ballI)
    fix x y assume "x \<in> V - set q" "y \<in> set q"
    then have "dep x \<le> dep u" "dep u \<le> dep y" using low span by blast+
    then show "dep x \<le> dep y" by simp
  qed
  show ?thesis
    unfolding bfs_inv_def prod.case using t sub dis srt span' exp' low' g by blast
qed

lemma bfs_step_inv:
  assumes "bfs_inv grid start goal dep (u # rest, V, P)" "u \<noteq> goal"
  shows "\<exists>dep'. bfs_inv grid start goal dep' (fold (bfs_visit grid u) directions (rest, V, P))"
proof -
  from bfs_fold_mid[OF bfs_pop[OF assms], of directions]
  obtain dep' where m: "bfs_mid grid start goal dep' u (set directions) (fold (bfs_visit grid u) directions (rest, V, P))"
    by auto
  obtain q' V' P' where s: "fold (bfs_visit grid u) directions (rest, V, P) = (q', V', P')"
    by (cases "fold (bfs_visit grid u) directions (rest, V, P)")
  show ?thesis using bfs_mid_done[OF m[unfolded s]] s by auto
qed

text \<open>The predecessor chain of a visited cell is a path from the start with as many steps as its depth.\<close>

lemma bfs_reconstruct:
  assumes t: "bfs_tree grid start dep V P"
  shows "n \<in> V \<Longrightarrow> dep n = k \<Longrightarrow> acc \<noteq> [] \<Longrightarrow> last acc = n \<Longrightarrow> path_ok grid {} (rev acc) \<Longrightarrow>
     \<exists>p. reconstruct_loop P n acc = Some p \<and> p \<noteq> [] \<and> hd p = start \<and> last p = hd acc
         \<and> path_ok grid {} p \<and> length p = length acc + k"
proof (induction k arbitrary: n acc)
  case 0
  have "n = start"
  proof (rule ccontr)
    assume "n \<noteq> start"
    then obtain x where "dep n = Suc (dep x)" using t "0.prems"(1) unfolding bfs_tree_def by blast
    then show False using "0.prems"(2) by simp
  qed
  have "P start = None" using t unfolding bfs_tree_def by blast
  then have "P n = None" using \<open>n = start\<close> by simp
  then have "reconstruct_loop P n acc = Some (rev acc)"
    by (subst reconstruct_loop.simps) simp
  then show ?case using 0 \<open>n = start\<close> by (simp add: hd_rev last_rev)
next
  case (Suc k)
  have "n \<noteq> start" using Suc.prems(2) t unfolding bfs_tree_def by auto
  then obtain x where x: "P n = Some x" "x \<in> V" "adjacent x n" "walkable grid {} n" "dep n = Suc (dep x)"
    using t Suc.prems(1) unfolding bfs_tree_def by blast
  then have dx: "dep x = k" using Suc.prems(2) by simp
  obtain rest where rest: "rev acc = n # rest"
    using Suc.prems(3,4) by (cases "rev acc") (auto simp: last_rev[symmetric] hd_rev)
  have ok: "path_ok grid {} (rev (acc @ [x]))"
    using rest x Suc.prems(5) by simp
  have "\<exists>p. reconstruct_loop P x (acc @ [x]) = Some p \<and> p \<noteq> [] \<and> hd p = start \<and> last p = hd (acc @ [x])
         \<and> path_ok grid {} p \<and> length p = length (acc @ [x]) + k"
    by (rule Suc.IH[OF x(2) dx]) (use ok in simp_all)
  moreover have "reconstruct_loop P n acc = reconstruct_loop P x (acc @ [x])"
    using x(1) by (subst reconstruct_loop.simps) simp
  ultimately show ?case using Suc.prems(3) by simp
qed

text \<open>A path that starts at a shallow visited cell stays among the visited cells.\<close>

lemma bfs_path_bound:
  assumes closed: "\<forall>x\<in>V. dep x < B \<longrightarrow> (\<forall>w. adjacent x w \<and> walkable grid {} w \<longrightarrow> w \<in> V \<and> dep w \<le> Suc (dep x))"
  shows "path_ok grid {} p \<Longrightarrow> p \<noteq> [] \<Longrightarrow> hd p \<in> V \<Longrightarrow> dep (hd p) + length p \<le> B \<Longrightarrow>
     last p \<in> V \<and> dep (last p) + 1 \<le> dep (hd p) + length p"
proof (induction p)
  case Nil
  then show ?case by simp
next
  case (Cons a p)
  show ?case
  proof (cases p)
    case Nil
    then show ?thesis using Cons.prems(3) by simp
  next
    case (Cons b rest)
    have lt: "dep a < B" using Cons.prems(4) by simp
    have ab: "adjacent a b" "walkable grid {} b" "path_ok grid {} p"
      using Cons.prems(1) Cons by simp_all
    have aV: "a \<in> V" using Cons.prems(3) by simp
    have b: "b \<in> V \<and> dep b \<le> Suc (dep a)"
      using closed lt aV ab(1,2) by blast
    have "last p \<in> V \<and> dep (last p) + 1 \<le> dep (hd p) + length p"
    proof (rule Cons.IH)
      show "path_ok grid {} p" by (rule ab(3))
      show "p \<noteq> []" using Cons by simp
      show "hd p \<in> V" using b Cons by simp
      show "dep (hd p) + length p \<le> B" using b Cons.prems(4) Cons by simp
    qed
    then show ?thesis using b Cons by simp
  qed
qed

lemma bfs_loop_correct:
  "bfs_inv grid start goal dep s \<Longrightarrow>
   \<exists>r. bfs_loop grid goal s = Some r \<and>
     (r = None \<longrightarrow> (\<forall>p. \<not> path_from_to grid {} start goal p)) \<and>
     (\<forall>p. r = Some p \<longrightarrow> shortest_from_to grid start goal p)"
proof (induction grid goal s arbitrary: dep rule: bfs_loop.induct)
  case (1 grid goal q V P)
  from "1.prems" have
    t: "bfs_tree grid start dep V P" and
    sub: "set q \<subseteq> V" and
    srt: "sorted (map dep q)" and
    exp: "\<forall>x\<in>V - set q. \<forall>w. adjacent x w \<and> walkable grid {} w \<longrightarrow> w \<in> V \<and> dep w \<le> Suc (dep x)" and
    g: "goal \<in> V \<longrightarrow> goal \<in> set q"
    unfolding bfs_inv_def prod.case by blast+
  have sV: "start \<in> V" and s0: "dep start = 0" using t unfolding bfs_tree_def by blast+
  show ?case
  proof (cases q)
    case Nil
    have res: "bfs_loop grid goal (q, V, P) = Some None"
      using Nil by (simp add: bfs_loop.simps)
    have "\<not> path_from_to grid {} start goal p" for p
    proof
      assume p: "path_from_to grid {} start goal p"
      have closed: "\<forall>x\<in>V. dep x < length p \<longrightarrow>
          (\<forall>w. adjacent x w \<and> walkable grid {} w \<longrightarrow> w \<in> V \<and> dep w \<le> Suc (dep x))"
        using exp Nil by simp
      have "last p \<in> V \<and> dep (last p) + 1 \<le> dep (hd p) + length p"
        by (rule bfs_path_bound[OF closed]) (use p sV s0 in \<open>simp_all add: path_from_to_def\<close>)
      then have "goal \<in> V" using p by (simp add: path_from_to_def)
      then show False using g Nil by simp
    qed
    then show ?thesis using res by simp
  next
    case (Cons u rest)
    show ?thesis
    proof (cases "u = goal")
      case True
      have gV: "goal \<in> V" using sub Cons True by simp
      have "\<exists>p. reconstruct_loop P goal [goal] = Some p \<and> p \<noteq> [] \<and> hd p = start \<and> last p = hd [goal]
         \<and> path_ok grid {} p \<and> length p = length [goal] + dep goal"
        by (rule bfs_reconstruct[OF t gV]) simp_all
      then obtain p where p: "reconstruct_loop P goal [goal] = Some p" "path_from_to grid {} start goal p"
        "length p = Suc (dep goal)"
        by (auto simp: path_from_to_def)
      have res: "bfs_loop grid goal (q, V, P) = Some (Some p)"
        using Cons True p(1) by (simp add: bfs_loop.simps)
      have minimal: "length p \<le> length p'" if p': "path_from_to grid {} start goal p'" for p'
      proof (rule ccontr)
        assume "\<not> length p \<le> length p'"
        then have short: "length p' \<le> dep goal" using p(3) by simp
        have closed: "\<forall>x\<in>V. dep x < dep goal \<longrightarrow>
          (\<forall>w. adjacent x w \<and> walkable grid {} w \<longrightarrow> w \<in> V \<and> dep w \<le> Suc (dep x))"
        proof (intro ballI impI)
          fix x assume x: "x \<in> V" "dep x < dep goal"
          have "x \<notin> set q"
          proof
            assume "x \<in> set q"
            then have "dep goal \<le> dep x" using srt Cons True by auto
            then show False using x(2) by simp
          qed
          then show "\<forall>w. adjacent x w \<and> walkable grid {} w \<longrightarrow> w \<in> V \<and> dep w \<le> Suc (dep x)"
            using exp x(1) by blast
        qed
        have "last p' \<in> V \<and> dep (last p') + 1 \<le> dep (hd p') + length p'"
          by (rule bfs_path_bound[OF closed]) (use p' sV s0 short in \<open>simp_all add: path_from_to_def\<close>)
        then have "dep goal + 1 \<le> length p'" using p' s0 by (simp add: path_from_to_def)
        then show False using short by simp
      qed
      show ?thesis using res p(2) minimal by (simp add: shortest_from_to_def)
    next
      case False
      from bfs_step_inv[OF "1.prems"[unfolded Cons] False]
      obtain dep' where "bfs_inv grid start goal dep' (fold (bfs_visit grid u) directions (rest, V, P))"
        by blast
      from "1.IH"[OF Cons False this]
      have "\<exists>r. bfs_loop grid goal (fold (bfs_visit grid u) directions (rest, V, P)) = Some r \<and>
        (r = None \<longrightarrow> (\<forall>p. \<not> path_from_to grid {} start goal p)) \<and>
        (\<forall>p. r = Some p \<longrightarrow> shortest_from_to grid start goal p)" .
      moreover have "bfs_loop grid goal (q, V, P) = bfs_loop grid goal (fold (bfs_visit grid u) directions (rest, V, P))"
        using Cons False by (simp add: bfs_loop.simps)
      ultimately show ?thesis by simp
    qed
  qed
qed

lemma bfs_init_inv: "s \<noteq> g \<Longrightarrow> bfs_inv grid s g (\<lambda>_. 0) ([s], {s}, Map.empty)"
  by (simp add: bfs_inv_def bfs_tree_def)

lemma bfs_path_correct:
  "\<exists>r. bfs_path grid (Some s) (Some g) = Some r \<and>
     (r = None \<longrightarrow> (\<forall>p. \<not> path_from_to grid {} s g p)) \<and>
     (\<forall>p. r = Some p \<longrightarrow> shortest_from_to grid s g p)"
proof (cases "s = g")
  case True
  have "shortest_from_to grid s s [s]"
    by (auto simp: shortest_from_to_def path_from_to_def Suc_le_eq)
  then show ?thesis using True by (simp add: bfs_path_def)
next
  case False
  then show ?thesis
    using bfs_loop_correct[OF bfs_init_inv[OF False]] by (simp add: bfs_path_def)
qed

text \<open>
  C4, as amended. For defined endpoints \<open>bfs_path\<close> returns a shortest path among the
  paths from the start whose cells after the first are in bounds and not walls (the start
  cell itself is not tested), and \<open>None\<close> exactly when there is no such path; it returns
  \<open>[start]\<close> when start and goal are the same cell, and \<open>None\<close> for an undefined
  endpoint.
\<close>

theorem bfs_path_shortest:
  assumes "grid_ok grid"
  shows "(\<exists>r. bfs_path grid (Some s) (Some g) = Some r
            \<and> (r = None \<longleftrightarrow> (\<forall>p. \<not> path_from_to grid {} s g p))
            \<and> (\<forall>p. r = Some p \<longrightarrow> shortest_from_to grid s g p))
     \<and> bfs_path grid (Some c) (Some c) = Some (Some [c])
     \<and> bfs_path grid None goal = Some None
     \<and> bfs_path grid start None = Some None"
proof -
  from bfs_path_correct[of grid s g] obtain r where r: "bfs_path grid (Some s) (Some g) = Some r"
    "r = None \<longrightarrow> (\<forall>p. \<not> path_from_to grid {} s g p)"
    "\<forall>p. r = Some p \<longrightarrow> shortest_from_to grid s g p" by blast
  have "(\<forall>p. \<not> path_from_to grid {} s g p) \<longrightarrow> r = None"
    using r(3) by (cases r) (auto simp: shortest_from_to_def)
  then have 1: "\<exists>r. bfs_path grid (Some s) (Some g) = Some r
            \<and> (r = None \<longleftrightarrow> (\<forall>p. \<not> path_from_to grid {} s g p))
            \<and> (\<forall>p. r = Some p \<longrightarrow> shortest_from_to grid s g p)"
    using r by blast
  have 2: "bfs_path grid (Some c) (Some c) = Some (Some [c])" by (simp add: bfs_path_def)
  have 3: "bfs_path grid None goal = Some None" by (simp add: bfs_path_def)
  have 4: "bfs_path grid start None = Some None" by (cases start) (simp_all add: bfs_path_def)
  show ?thesis using 1 2 3 4 by blast
qed

theorem bfs_path_shortest_witness:
  "grid_ok make_grid
   \<and> bfs_path make_grid (Some (5, 7)) (Some (5, 6)) = Some (Some [(5, 7), (5, 6)])
   \<and> path_from_to make_grid {} (5, 7) (5, 6) [(5, 7), (6, 7), (6, 6), (5, 6)]
   \<and> length [(5, 7), (5, 6) :: cell] \<le> length [(5, 7), (6, 7), (6, 6), (5, 6) :: cell]"
proof -
  have a: "grid_ok make_grid" by code_simp
  have b: "bfs_path make_grid (Some (5, 7)) (Some (5, 6)) = Some (Some [(5, 7), (5, 6)])"
    by code_simp
  have c: "path_from_to make_grid {} (5, 7) (5, 6) [(5, 7), (6, 7), (6, 6), (5, 6)]"
    by code_simp
  from bfs_path_shortest[OF a, of "(5, 7)" "(5, 6)"] b
  have "shortest_from_to make_grid (5, 7) (5, 6) [(5, 7), (5, 6)]" by auto
  then have "length [(5, 7), (5, 6) :: cell] \<le> length [(5, 7), (6, 7), (6, 6), (5, 6) :: cell]"
    using c unfolding shortest_from_to_def by blast
  then show ?thesis using a b c by simp
qed

text \<open>
  C4 as stated fails for a ghost that stands on a wall cell: no path of non-wall cells leaves
  a wall, yet the search returns a path.
\<close>

theorem bfs_path_from_wall:
  "cell_at (set_cell make_grid 0 0 WALL) 0 0 = WALL
   \<and> bfs_path (set_cell make_grid 0 0 WALL) (Some (0, 0)) (Some (0, 1)) = Some (Some [(0, 0), (0, 1)])"
  by code_simp

text \<open>
  C1. The claim is that, with nothing blocked, \<open>astar\<close> returns a path of the length of
  a shortest path whenever one exists. The code does not: in the level \<open>detour_level\<close>
  a path of 14 walkable cells leads from S to G, and \<open>astar\<close> returns a path of 16
  cells, because a cell whose score improves while it waits in the heap keeps its old
  priority.
\<close>

theorem astar_not_shortest:
  "load_lines detour_level = (detour_grid, Some (15, 19), Some (12, 11), {}, [])
   \<and> grid_ok detour_grid
   \<and> astar detour_grid (Some (15, 19)) (Some (12, 11)) None = Some (Some detour_long)
   \<and> length detour_long = 16
   \<and> path_from_to detour_grid {} (15, 19) (12, 11) detour_short
   \<and> walkable detour_grid {} (15, 19)
   \<and> length detour_short = 14"
  by code_simp

text \<open>On an open grid the result from (0, 0) to (4, 4) has 9 cells, as many as a shortest path.\<close>

lemma astar_open_grid_nine:
  "astar make_grid (Some (0, 0)) (Some (4, 4)) None
     = Some (Some [(0, 0), (1, 0), (2, 0), (3, 0), (4, 0), (4, 1), (4, 2), (4, 3), (4, 4)])"
  by code_simp

section \<open>Properties of the game logic\<close>

lemma astar_total: "\<exists>r. astar grid start goal blocked = Some r"
  using astar_sound[of grid start goal blocked] by blast

lemma bfs_path_total: "\<exists>r. bfs_path grid start goal = Some r"
proof (cases start)
  case None
  then show ?thesis by (simp add: bfs_path_def)
next
  case s: (Some s)
  show ?thesis
  proof (cases goal)
    case None
    then show ?thesis using s by (simp add: bfs_path_def)
  next
    case (Some g)
    then show ?thesis using s bfs_path_correct[of grid s g] by blast
  qed
qed

lemma ghost_steps_total: "\<exists>new. ghost_steps grid pac ghosts = Some new \<and> length new = length ghosts"
proof (induction ghosts)
  case Nil
  then show ?case by simp
next
  case (Cons gpos rest)
  obtain r where r: "bfs_path grid (Some gpos) pac = Some r" using bfs_path_total by blast
  from Cons obtain new where "ghost_steps grid pac rest = Some new" "length new = length rest" by blast
  then show ?case using r by simp
qed

lemma ghost_move_total:
  "\<exists>new. ghost_move now st = Some (st\<lparr>last_ghost_move_time := now, ghost_positions := new\<rparr>)
        \<and> length new = length (ghost_positions st)"
  using ghost_steps_total[of "cur_grid st" "pac_pos st" "ghost_positions st"]
  by (auto simp: ghost_move_def)

lemma pac_move_stuck_eq:
  assumes "astar (cur_grid st) (pac_pos st) (goal_cell st) (Some (pac_blocked st)) = Some path"
    and "path = None \<or> length (the path) < 2"
  shows "pac_move now st = Some (stuck_state now st)"
  using assms by (auto simp: pac_move_def pac_blocked_def stuck_state_def Let_def)

lemma pac_move_advance_eq:
  assumes "astar (cur_grid st) (pac_pos st) (goal_cell st) (Some (pac_blocked st)) = Some (Some p)"
    and "2 \<le> length p"
  shows "pac_move now st = Some (advance_state now (p ! 1) st)"
proof -
  have "reward_cells st - {p ! 1} = reward_cells st" if "p ! 1 \<notin> reward_cells st"
    using that by auto
  then show ?thesis
    using assms by (auto simp: pac_move_def pac_blocked_def advance_state_def Let_def)
qed

lemma pac_move_cases:
  "\<exists>path. astar (cur_grid st) (pac_pos st) (goal_cell st) (Some (pac_blocked st)) = Some path \<and>
     pac_move now st = Some (if path = None \<or> length (the path) < 2 then stuck_state now st
                             else advance_state now (the path ! 1) st)"
proof -
  obtain path where path: "astar (cur_grid st) (pac_pos st) (goal_cell st) (Some (pac_blocked st)) = Some path"
    using astar_total by blast
  show ?thesis
  proof (cases "path = None \<or> length (the path) < 2")
    case True
    then show ?thesis using path pac_move_stuck_eq[OF path] by simp
  next
    case False
    then obtain p where "path = Some p" "2 \<le> length p" by (cases path) auto
    then show ?thesis using path pac_move_advance_eq[of st p now] by simp
  qed
qed

lemma stuck_state_simps [simp]:
  "reason (stuck_state now st) = Some ''stuck''" "game_over (stuck_state now st)"
  "\<not> playing (stuck_state now st)" "final_score (stuck_state now st) = Some (score st)"
  "end_time (stuck_state now st) = Some now" "pac_pos (stuck_state now st) = pac_pos st"
  "ghost_positions (stuck_state now st) = ghost_positions st"
  "last_ghost_move_time (stuck_state now st) = last_ghost_move_time st"
  "reward_cells (stuck_state now st) = reward_cells st" "score (stuck_state now st) = score st"
  "cur_grid (stuck_state now st) = cur_grid st"
  by (simp_all add: stuck_state_def)

lemma advance_state_simps [simp]:
  "pac_pos (advance_state now c st) = Some c"
  "ghost_positions (advance_state now c st) = ghost_positions st"
  "last_ghost_move_time (advance_state now c st) = last_ghost_move_time st"
  "reward_cells (advance_state now c st) = reward_cells st - {c}"
  "score (advance_state now c st) = (if c \<in> reward_cells st then score st + 1 else score st)"
  "cur_grid (advance_state now c st) = cur_grid st"
  "game_over (advance_state now c st) = (Some c = goal_cell st \<or> game_over st)"
  by (simp_all add: advance_state_def Let_def)

lemma advance_state_terminal:
  "Some c = goal_cell st \<Longrightarrow>
     reason (advance_state now c st) = Some ''win'' \<and> end_time (advance_state now c st) = Some now
     \<and> \<not> playing (advance_state now c st)
     \<and> final_score (advance_state now c st) = Some (score (advance_state now c st))"
  by (simp add: advance_state_def Let_def)

lemma check_collision_hit:
  "pac_pos st = Some a \<Longrightarrow> a \<in> set (ghost_positions st) \<Longrightarrow>
   check_collision now2 st = st\<lparr>playing := False, game_over := True, reason := Some ''ghost'',
           final_score := Some (score st), end_time := Some now2\<rparr>"
  by (auto simp: check_collision_def)

lemma check_collision_miss:
  "pac_pos st = Some a \<Longrightarrow> a \<notin> set (ghost_positions st) \<Longrightarrow> check_collision now2 st = st"
  by (auto simp: check_collision_def)

lemma game_logic_blocks:
  "playing st \<Longrightarrow> \<not> game_over st \<Longrightarrow> pac_pos st \<noteq> None \<Longrightarrow>
   pac_block now st = Some st1 \<Longrightarrow> ghost_block now st1 = Some st2 \<Longrightarrow>
   game_logic now now2 st = Some (check_collision now2 st2)"
  by (simp add: game_logic_def pac_block_def ghost_block_def)

lemma ghost_block_total:
  "\<exists>st2. ghost_block now st = Some st2 \<and> pac_pos st2 = pac_pos st \<and> reason st2 = reason st
     \<and> end_time st2 = end_time st \<and> score st2 = score st \<and> reward_cells st2 = reward_cells st
     \<and> game_over st2 = game_over st \<and> playing st2 = playing st \<and> final_score st2 = final_score st
     \<and> length (ghost_positions st2) = length (ghost_positions st)"
proof (cases "ghost_positions st \<noteq> [] \<and> pac_pos st \<noteq> None
         \<and> GHOST_MOVE_INTERVAL \<le> now - last_ghost_move_time st")
  case True
  from ghost_move_total[of now st] obtain new where
    "ghost_move now st = Some (st\<lparr>last_ghost_move_time := now, ghost_positions := new\<rparr>)"
    "length new = length (ghost_positions st)" by blast
  then show ?thesis using True by (simp add: ghost_block_def)
next
  case False
  then show ?thesis by (auto simp: ghost_block_def)
qed

lemma pac_move_terminal:
  assumes "pac_move now st = Some st1" "\<not> game_over st" "game_over st1"
  shows "(reason st1 = Some ''stuck'' \<or> reason st1 = Some ''win'') \<and> end_time st1 = Some now
     \<and> \<not> playing st1 \<and> final_score st1 = Some (score st1)"
proof -
  obtain path where
    path: "astar (cur_grid st) (pac_pos st) (goal_cell st) (Some (pac_blocked st)) = Some path"
    using astar_total by blast
  show ?thesis
  proof (cases "path = None \<or> length (the path) < 2")
    case True
    then have "st1 = stuck_state now st" using pac_move_stuck_eq[OF path] assms(1) by simp
    then show ?thesis by simp
  next
    case False
    then obtain p where p: "path = Some p" "2 \<le> length p" by (cases path) auto
    have st1: "st1 = advance_state now (p ! 1) st"
      using pac_move_advance_eq[OF path[unfolded p(1)] p(2)] assms(1) by simp
    then have "Some (p ! 1) = goal_cell st" using assms(2,3) by simp
    then show ?thesis using advance_state_terminal[of "p ! 1" st now] st1 by simp
  qed
qed

lemma pac_move_pac_pos:
  assumes "pac_pos st \<noteq> None" "pac_move now st = Some st1"
  shows "pac_pos st1 \<noteq> None"
proof -
  obtain path where
    path: "astar (cur_grid st) (pac_pos st) (goal_cell st) (Some (pac_blocked st)) = Some path"
    using astar_total by blast
  show ?thesis
  proof (cases "path = None \<or> length (the path) < 2")
    case True
    then have "st1 = stuck_state now st" using pac_move_stuck_eq[OF path] assms(2) by simp
    then show ?thesis using assms(1) by simp
  next
    case False
    then obtain p where p: "path = Some p" "2 \<le> length p" by (cases path) auto
    have st1: "st1 = advance_state now (p ! 1) st"
      using pac_move_advance_eq[OF path[unfolded p(1)] p(2)] assms(2) by simp
    then show ?thesis by simp
  qed
qed






text \<open>
  C2, as amended. The Pac-Man block runs before the ghost block, and the ghost block is not
  gated on its outcome: after a Pac-Man block that ended the run (win or stuck) the ghost
  block still runs under its own guard, and the final collision test keeps the reason and
  the end time of the Pac-Man block exactly when no ghost is on the agent's cell; otherwise
  it overwrites them with 'ghost' and a new clock value.
\<close>

theorem seeker_terminal_not_gated:
  assumes "grid_ok (cur_grid st)" "playing st" "\<not> game_over st" "pac_pos st \<noteq> None"
    and "PAC_MOVE_INTERVAL \<le> now - last_pac_move_time st"
    and "pac_move now st = Some st1" "game_over st1"
  shows "\<exists>st2 a. ghost_block now st1 = Some st2
     \<and> game_logic now now2 st = Some (check_collision now2 st2)
     \<and> pac_pos st2 = Some a \<and> pac_pos st1 = Some a
     \<and> (reason st1 = Some ''stuck'' \<or> reason st1 = Some ''win'') \<and> end_time st1 = Some now
     \<and> (a \<in> set (ghost_positions st2) \<longrightarrow>
           reason (check_collision now2 st2) = Some ''ghost''
           \<and> end_time (check_collision now2 st2) = Some now2)
     \<and> (a \<notin> set (ghost_positions st2) \<longrightarrow>
           reason (check_collision now2 st2) = reason st1
           \<and> end_time (check_collision now2 st2) = Some now)"
proof -
  from ghost_block_total[of now st1] obtain st2 where
    st2: "ghost_block now st1 = Some st2" "pac_pos st2 = pac_pos st1" "reason st2 = reason st1"
      "end_time st2 = end_time st1" by blast
  obtain a where a: "pac_pos st1 = Some a"
    using pac_move_pac_pos[OF assms(4,6)] by auto
  have pb: "pac_block now st = Some st1" using assms(5,6) by (simp add: pac_block_def)
  have gl: "game_logic now now2 st = Some (check_collision now2 st2)"
    by (rule game_logic_blocks[OF assms(2,3,4) pb st2(1)])
  have trm: "(reason st1 = Some ''stuck'' \<or> reason st1 = Some ''win'') \<and> end_time st1 = Some now"
    using pac_move_terminal[OF assms(6,3,7)] by simp
  have a2: "pac_pos st2 = Some a" using st2(2) a by simp
  have hit: "a \<in> set (ghost_positions st2) \<longrightarrow>
           reason (check_collision now2 st2) = Some ''ghost''
           \<and> end_time (check_collision now2 st2) = Some now2"
    using check_collision_hit[OF a2] by simp
  have miss: "a \<notin> set (ghost_positions st2) \<longrightarrow>
           reason (check_collision now2 st2) = reason st1
           \<and> end_time (check_collision now2 st2) = Some now"
    using check_collision_miss[OF a2] st2(3,4) trm by simp
  show ?thesis using st2(1) gl a2 a trm hit miss by blast
qed

text \<open>
  C2 as stated fails: Pac-Man steps onto the goal (5, 6) and wins at clock 300, then the
  ghost at (5, 7) steps onto the same cell in the same pass, and the pass ends with reason
  'ghost' and end time 301.
\<close>

theorem win_overwritten_by_ghost:
  "map_option (\<lambda>s. (reason s, end_time s)) (pac_move 300 chase_demo) = Some (Some ''win'', Some 300)
   \<and> map_option (\<lambda>s. (reason s, end_time s, ghost_positions s)) (game_logic 300 301 chase_demo)
       = Some (Some ''ghost'', Some 301, [(5, 6)])"
  by code_simp

lemma chase_demo_running:
  "grid_ok (cur_grid chase_demo) \<and> playing chase_demo \<and> \<not> game_over chase_demo
   \<and> pac_pos chase_demo \<noteq> None
   \<and> PAC_MOVE_INTERVAL \<le> 300 - last_pac_move_time chase_demo"
  by code_simp

lemma chase_demo_pac_move:
  "pac_move 300 chase_demo \<noteq> None \<and> game_over (the (pac_move 300 chase_demo))
   \<and> pac_pos (the (pac_move 300 chase_demo)) = Some (5, 6)
   \<and> ghost_positions (the (pac_move 300 chase_demo)) \<noteq> []
   \<and> GHOST_MOVE_INTERVAL \<le> 300 - last_ghost_move_time (the (pac_move 300 chase_demo))"
  by code_simp


theorem seeker_terminal_not_gated_witness:
  "grid_ok (cur_grid chase_demo) \<and> playing chase_demo \<and> \<not> game_over chase_demo
   \<and> pac_pos chase_demo \<noteq> None
   \<and> PAC_MOVE_INTERVAL \<le> 300 - last_pac_move_time chase_demo
   \<and> game_over (the (pac_move 300 chase_demo))
   \<and> (reason (the (pac_move 300 chase_demo)) = Some ''stuck''
        \<or> reason (the (pac_move 300 chase_demo)) = Some ''win'')
   \<and> end_time (the (pac_move 300 chase_demo)) = Some 300"
proof -
  have pm: "pac_move 300 chase_demo = Some (the (pac_move 300 chase_demo))"
    using chase_demo_pac_move by simp
  from seeker_terminal_not_gated[of chase_demo 300 "the (pac_move 300 chase_demo)" 301]
    chase_demo_running chase_demo_pac_move pm
  show ?thesis by auto
qed



lemma check_collision_keeps:
  "reward_cells (check_collision now2 st) = reward_cells st"
  "score (check_collision now2 st) = score st"
  "pac_pos (check_collision now2 st) = pac_pos st"
  by (simp_all add: check_collision_def)

lemma pac_block_rewards:
  assumes "pac_block now st = Some st1"
  shows "reward_cells st1 \<subseteq> reward_cells st
     \<and> reward_cells st - reward_cells st1 \<subseteq> set_option (pac_pos st1)
     \<and> score st1 = score st + int (card (reward_cells st - reward_cells st1))"
proof (cases "PAC_MOVE_INTERVAL \<le> now - last_pac_move_time st")
  case False
  then have "st1 = st" using assms by (simp add: pac_block_def)
  then show ?thesis by simp
next
  case True
  then have pm: "pac_move now st = Some st1" using assms by (simp add: pac_block_def)
  obtain path where
    path: "astar (cur_grid st) (pac_pos st) (goal_cell st) (Some (pac_blocked st)) = Some path"
    using astar_total by blast
  show ?thesis
  proof (cases "path = None \<or> length (the path) < 2")
    case True
    then have "st1 = stuck_state now st" using pac_move_stuck_eq[OF path] pm by simp
    then show ?thesis by simp
  next
    case False
    then obtain p where p: "path = Some p" "2 \<le> length p" by (cases path) auto
    have st1: "st1 = advance_state now (p ! 1) st"
      using pac_move_advance_eq[OF path[unfolded p(1)] p(2)] pm by simp
    have d: "\<And>c. reward_cells st - (reward_cells st - {c})
               = (if c \<in> reward_cells st then {c} else {})" by auto
    show ?thesis unfolding st1 by (simp add: d)
  qed
qed

lemma game_logic_rewards:
  assumes "game_logic now now2 st = Some st'"
  shows "reward_cells st' \<subseteq> reward_cells st
     \<and> reward_cells st - reward_cells st' \<subseteq> set_option (pac_pos st')
     \<and> score st' = score st + int (card (reward_cells st - reward_cells st'))"
proof (cases "playing st \<and> \<not> game_over st \<and> pac_pos st \<noteq> None")
  case False
  then have "st' = st" using assms by (auto simp: game_logic_def)
  then show ?thesis by simp
next
  case True
  obtain st1 where st1: "pac_block now st = Some st1"
    using assms True by (cases "pac_block now st") (auto simp: game_logic_def pac_block_def)
  from ghost_block_total[of now st1] obtain st2 where
    st2: "ghost_block now st1 = Some st2" "pac_pos st2 = pac_pos st1" "score st2 = score st1"
      "reward_cells st2 = reward_cells st1" by blast
  have "game_logic now now2 st = Some (check_collision now2 st2)"
    using True game_logic_blocks[OF _ _ _ st1 st2(1)] by simp
  then have "st' = check_collision now2 st2" using assms by simp
  then show ?thesis
    using pac_block_rewards[OF st1] st2 by (simp add: check_collision_keeps)
qed

lemma run_ticks_rewards:
  "run_ticks ts st = Some st' \<Longrightarrow>
     reward_cells st' \<subseteq> reward_cells st
     \<and> finite (reward_cells st - reward_cells st')
     \<and> score st' = score st + int (card (reward_cells st - reward_cells st'))"
proof (induction ts arbitrary: st)
  case Nil
  then show ?case by simp
next
  case (Cons t ts)
  obtain st1 where st1: "game_logic (fst t) (snd t) st = Some st1" "run_ticks ts st1 = Some st'"
    using Cons.prems by (cases "game_logic (fst t) (snd t) st") auto
  from game_logic_rewards[OF st1(1)] have
    a: "reward_cells st1 \<subseteq> reward_cells st"
       "reward_cells st - reward_cells st1 \<subseteq> set_option (pac_pos st1)"
       "score st1 = score st + int (card (reward_cells st - reward_cells st1))" by simp_all
  from Cons.IH[OF st1(2)] have
    b: "reward_cells st' \<subseteq> reward_cells st1"
       "finite (reward_cells st1 - reward_cells st')"
       "score st' = score st1 + int (card (reward_cells st1 - reward_cells st'))" by simp_all
  have fa: "finite (reward_cells st - reward_cells st1)"
    using a(2) by (rule finite_subset) (cases "pac_pos st1"; simp)
  have split: "reward_cells st - reward_cells st'
        = (reward_cells st - reward_cells st1) \<union> (reward_cells st1 - reward_cells st')"
    using a(1) b(1) by auto
  have disj: "(reward_cells st - reward_cells st1) \<inter> (reward_cells st1 - reward_cells st') = {}"
    by auto
  have "card (reward_cells st - reward_cells st')
        = card (reward_cells st - reward_cells st1) + card (reward_cells st1 - reward_cells st')"
    unfolding split by (rule card_Un_disjoint[OF fa b(2) disj])
  then show ?case using a b fa split by auto
qed

lemma running_mouse_edit: "running st \<Longrightarrow> mouse_edit left right pos shift key_g st = st"
  by (simp add: running_def mouse_edit_def)

lemma running_key_space: "running st \<Longrightarrow> key_space now st = st"
  by (simp add: running_def key_space_def)

lemma key_c_not_running: "\<not> running (key_c st)" "reward_cells (key_c st) = {}"
  by (simp_all add: running_def key_c_def)

lemma key_r_not_running: "\<not> running (key_r st)" "reward_cells (key_r st) = reward_cells st"
  by (simp_all add: running_def key_r_def)

lemma key_l_not_running: "\<not> running (key_l file st)"
  by (cases "load_level file") (simp add: running_def key_l_def)

lemma loop_step_rewards:
  assumes "running st" "loop_step i st = Some st'" "running st'"
  shows "reward_cells st' \<subseteq> reward_cells st
     \<and> reward_cells st - reward_cells st' \<subseteq> set_option (pac_pos st')
     \<and> score st' = score st + int (card (reward_cells st - reward_cells st'))"
proof (cases i)
  case KeyC
  then show ?thesis using assms(2,3) key_c_not_running(1)[of st] by auto
next
  case (KeyL lvl)
  then show ?thesis using assms(2,3) key_l_not_running[of lvl st] by auto
next
  case (KeySpace now)
  then have "st' = st" using assms(1,2) by (simp add: running_key_space)
  then show ?thesis by simp
next
  case KeyR
  then show ?thesis using assms(2,3) key_r_not_running(1)[of st] by auto
next
  case (Mouse left right pos shift key_g)
  then have "st' = st" using assms(1,2) by (simp add: running_mouse_edit)
  then show ?thesis by simp
next
  case (Logic now now2)
  then have "game_logic now now2 st = Some st'" using assms(2) by simp
  then show ?thesis by (rule game_logic_rewards)
qed

lemma loop_step_shrinks:
  assumes "running st" "loop_step i st = Some st'" "\<forall>file. i \<noteq> KeyL file"
  shows "reward_cells st' \<subseteq> reward_cells st"
proof (cases i)
  case KeyC
  then show ?thesis using assms(2) by (auto simp: key_c_not_running(2))
next
  case (KeyL lvl)
  then show ?thesis using assms(3) by simp
next
  case (KeySpace now)
  then have "st' = st" using assms(1,2) by (simp add: running_key_space)
  then show ?thesis by simp
next
  case KeyR
  then show ?thesis using assms(2) by (auto simp: key_r_not_running(2))
next
  case (Mouse left right pos shift key_g)
  then have "st' = st" using assms(1,2) by (simp add: running_mouse_edit)
  then show ?thesis by simp
next
  case (Logic now now2)
  then have "game_logic now now2 st = Some st'" using assms(2) by simp
  then show ?thesis using game_logic_rewards by blast
qed

lemma loop_step_leaves:
  assumes "loop_step i st = Some st'" "i = KeyC \<or> i = KeyR \<or> (\<exists>file. i = KeyL file)"
  shows "\<not> running st'"
  using assms key_c_not_running(1)[of st] key_r_not_running(1)[of st] key_l_not_running[of _ st]
  by auto

lemma run_loop_rewards:
  "stays_running inputs st \<Longrightarrow> run_loop inputs st = Some st' \<Longrightarrow>
     reward_cells st' \<subseteq> reward_cells st
     \<and> finite (reward_cells st - reward_cells st')
     \<and> score st' = score st + int (card (reward_cells st - reward_cells st'))"
proof (induction inputs arbitrary: st)
  case Nil
  then show ?case by simp
next
  case (Cons i inputs)
  obtain st1 where st1: "loop_step i st = Some st1" "run_loop inputs st1 = Some st'"
    using Cons.prems(2) by (cases "loop_step i st") auto
  have r: "running st" "stays_running inputs st1" using Cons.prems(1) st1(1) by simp_all
  have r1: "running st1" using r(2) by (cases inputs) simp_all
  from loop_step_rewards[OF r(1) st1(1) r1] have
    a: "reward_cells st1 \<subseteq> reward_cells st"
       "reward_cells st - reward_cells st1 \<subseteq> set_option (pac_pos st1)"
       "score st1 = score st + int (card (reward_cells st - reward_cells st1))" by simp_all
  from Cons.IH[OF r(2) st1(2)] have
    b: "reward_cells st' \<subseteq> reward_cells st1"
       "finite (reward_cells st1 - reward_cells st')"
       "score st' = score st1 + int (card (reward_cells st1 - reward_cells st'))" by simp_all
  have fa: "finite (reward_cells st - reward_cells st1)"
    using a(2) by (rule finite_subset) (cases "pac_pos st1"; simp)
  have split: "reward_cells st - reward_cells st'
        = (reward_cells st - reward_cells st1) \<union> (reward_cells st1 - reward_cells st')"
    using a(1) b(1) by auto
  have disj: "(reward_cells st - reward_cells st1) \<inter> (reward_cells st1 - reward_cells st') = {}"
    by auto
  have "card (reward_cells st - reward_cells st')
        = card (reward_cells st - reward_cells st1) + card (reward_cells st1 - reward_cells st')"
    unfolding split by (rule card_Un_disjoint[OF fa b(2) disj])
  then show ?case using a b fa split by auto
qed

lemma game_logic_collects:
  assumes "running st" "PAC_MOVE_INTERVAL \<le> now - last_pac_move_time st"
    and "astar (cur_grid st) (pac_pos st) (goal_cell st) (Some (pac_blocked st)) = Some (Some p)"
    and "2 \<le> length p" "p ! 1 \<in> reward_cells st"
  shows "\<exists>st'. game_logic now now2 st = Some st' \<and> pac_pos st' = Some (p ! 1)
     \<and> reward_cells st' = reward_cells st - {p ! 1} \<and> score st' = score st + 1"
proof -
  have p0: "pac_pos st \<noteq> None"
  proof
    assume "pac_pos st = None"
    then have "astar (cur_grid st) (pac_pos st) (goal_cell st) (Some (pac_blocked st)) = Some None"
      by (simp add: astar_def)
    then show False using assms(3) by simp
  qed
  define st1 where "st1 = advance_state now (p ! 1) st"
  have pm: "pac_move now st = Some st1"
    unfolding st1_def by (rule pac_move_advance_eq[OF assms(3,4)])
  have pb: "pac_block now st = Some st1" using pm assms(2) by (simp add: pac_block_def)
  from ghost_block_total[of now st1] obtain st2 where
    st2: "ghost_block now st1 = Some st2" "pac_pos st2 = pac_pos st1" "score st2 = score st1"
      "reward_cells st2 = reward_cells st1" by blast
  have "game_logic now now2 st = Some (check_collision now2 st2)"
    using assms(1) game_logic_blocks[OF _ _ p0 pb st2(1)] by (simp add: running_def)
  then show ?thesis
    using st2 assms(5) by (simp add: check_collision_keeps st1_def)
qed

text \<open>
  C7. A step of the agent onto a reward cell removes that cell from the reward set and adds
  exactly 1 to the score, in the Pac-Man block and in the pass that runs it. A pass of the game
  logic can change the reward set only by removing the agent's cell, and over any number of
  passes the set only shrinks while the score grows by the number of cells removed, so that no
  reward counts twice. In a running game the mouse block and the SPACE key change nothing and
  the keys C, R and L end the run; so every step of the loop from a running game other than
  the L key, which loads another level, only shrinks the reward set, a step that leaves the
  game running removes at most the agent's cell, and along any sequence of steps through
  running states the set only shrinks and the score grows by the number of cells removed.
\<close>

theorem reward_collected_once:
  "(\<forall>p. astar (cur_grid st) (pac_pos st) (goal_cell st) (Some (pac_blocked st)) = Some (Some p)
              \<and> 2 \<le> length p \<and> p ! 1 \<in> reward_cells st
            \<longrightarrow> (\<exists>st1. pac_move now st = Some st1 \<and> pac_pos st1 = Some (p ! 1)
                    \<and> reward_cells st1 = reward_cells st - {p ! 1}
                    \<and> score st1 = score st + 1)
                \<and> (running st \<and> PAC_MOVE_INTERVAL \<le> now - last_pac_move_time st
                     \<longrightarrow> (\<exists>st'. game_logic now now2 st = Some st' \<and> pac_pos st' = Some (p ! 1)
                            \<and> reward_cells st' = reward_cells st - {p ! 1}
                            \<and> score st' = score st + 1)))
     \<and> (\<forall>st'. game_logic now now2 st = Some st'
            \<longrightarrow> reward_cells st' \<subseteq> reward_cells st
                \<and> reward_cells st - reward_cells st' \<subseteq> set_option (pac_pos st'))
     \<and> (\<forall>st'. run_ticks ts st = Some st'
            \<longrightarrow> reward_cells st' \<subseteq> reward_cells st
                \<and> finite (reward_cells st - reward_cells st')
                \<and> score st' = score st + int (card (reward_cells st - reward_cells st')))
     \<and> (running st \<longrightarrow>
            mouse_edit left right pos shift key_g st = st
            \<and> key_space t st = st
            \<and> \<not> running (key_c st) \<and> reward_cells (key_c st) = {}
            \<and> \<not> running (key_r st) \<and> reward_cells (key_r st) = reward_cells st
            \<and> \<not> running (key_l file st))
     \<and> (\<forall>i st'. running st \<and> loop_step i st = Some st'
            \<longrightarrow> ((\<forall>file. i \<noteq> KeyL file) \<longrightarrow> reward_cells st' \<subseteq> reward_cells st)
                \<and> (running st' \<longrightarrow>
                      reward_cells st' \<subseteq> reward_cells st
                      \<and> reward_cells st - reward_cells st' \<subseteq> set_option (pac_pos st')
                      \<and> score st' = score st + int (card (reward_cells st - reward_cells st'))))
     \<and> (\<forall>inputs st'. stays_running inputs st \<and> run_loop inputs st = Some st'
            \<longrightarrow> reward_cells st' \<subseteq> reward_cells st
                \<and> finite (reward_cells st - reward_cells st')
                \<and> score st' = score st + int (card (reward_cells st - reward_cells st')))"
proof -
  have 1: "\<forall>p. astar (cur_grid st) (pac_pos st) (goal_cell st) (Some (pac_blocked st)) = Some (Some p)
              \<and> 2 \<le> length p \<and> p ! 1 \<in> reward_cells st
            \<longrightarrow> (\<exists>st1. pac_move now st = Some st1 \<and> pac_pos st1 = Some (p ! 1)
                    \<and> reward_cells st1 = reward_cells st - {p ! 1}
                    \<and> score st1 = score st + 1)
                \<and> (running st \<and> PAC_MOVE_INTERVAL \<le> now - last_pac_move_time st
                     \<longrightarrow> (\<exists>st'. game_logic now now2 st = Some st' \<and> pac_pos st' = Some (p ! 1)
                            \<and> reward_cells st' = reward_cells st - {p ! 1}
                            \<and> score st' = score st + 1))"
  proof (intro allI impI)
    fix p
    assume p: "astar (cur_grid st) (pac_pos st) (goal_cell st) (Some (pac_blocked st)) = Some (Some p)
              \<and> 2 \<le> length p \<and> p ! 1 \<in> reward_cells st"
    then have "pac_move now st = Some (advance_state now (p ! 1) st)"
      using pac_move_advance_eq[of st p now] by simp
    then have a: "\<exists>st1. pac_move now st = Some st1 \<and> pac_pos st1 = Some (p ! 1)
                    \<and> reward_cells st1 = reward_cells st - {p ! 1}
                    \<and> score st1 = score st + 1"
      using p by simp
    have b: "running st \<and> PAC_MOVE_INTERVAL \<le> now - last_pac_move_time st
                     \<longrightarrow> (\<exists>st'. game_logic now now2 st = Some st' \<and> pac_pos st' = Some (p ! 1)
                            \<and> reward_cells st' = reward_cells st - {p ! 1}
                            \<and> score st' = score st + 1)"
      using game_logic_collects[of st now p now2] p by blast
    show "(\<exists>st1. pac_move now st = Some st1 \<and> pac_pos st1 = Some (p ! 1)
                    \<and> reward_cells st1 = reward_cells st - {p ! 1}
                    \<and> score st1 = score st + 1)
                \<and> (running st \<and> PAC_MOVE_INTERVAL \<le> now - last_pac_move_time st
                     \<longrightarrow> (\<exists>st'. game_logic now now2 st = Some st' \<and> pac_pos st' = Some (p ! 1)
                            \<and> reward_cells st' = reward_cells st - {p ! 1}
                            \<and> score st' = score st + 1))"
      using a b by (rule conjI)
  qed
  have 2: "\<forall>st'. game_logic now now2 st = Some st'
            \<longrightarrow> reward_cells st' \<subseteq> reward_cells st
                \<and> reward_cells st - reward_cells st' \<subseteq> set_option (pac_pos st')"
    using game_logic_rewards by blast
  have 3: "\<forall>st'. run_ticks ts st = Some st'
            \<longrightarrow> reward_cells st' \<subseteq> reward_cells st
                \<and> finite (reward_cells st - reward_cells st')
                \<and> score st' = score st + int (card (reward_cells st - reward_cells st'))"
    using run_ticks_rewards by blast
  have 4: "running st \<longrightarrow>
            mouse_edit left right pos shift key_g st = st
            \<and> key_space t st = st
            \<and> \<not> running (key_c st) \<and> reward_cells (key_c st) = {}
            \<and> \<not> running (key_r st) \<and> reward_cells (key_r st) = reward_cells st
            \<and> \<not> running (key_l file st)"
    by (simp add: running_mouse_edit running_key_space key_c_not_running key_r_not_running
          key_l_not_running)
  have 5: "\<forall>i st'. running st \<and> loop_step i st = Some st'
            \<longrightarrow> ((\<forall>file. i \<noteq> KeyL file) \<longrightarrow> reward_cells st' \<subseteq> reward_cells st)
                \<and> (running st' \<longrightarrow>
                      reward_cells st' \<subseteq> reward_cells st
                      \<and> reward_cells st - reward_cells st' \<subseteq> set_option (pac_pos st')
                      \<and> score st' = score st + int (card (reward_cells st - reward_cells st')))"
    using loop_step_shrinks loop_step_rewards by blast
  have 6: "\<forall>inputs st'. stays_running inputs st \<and> run_loop inputs st = Some st'
            \<longrightarrow> reward_cells st' \<subseteq> reward_cells st
                \<and> finite (reward_cells st - reward_cells st')
                \<and> score st' = score st + int (card (reward_cells st - reward_cells st'))"
    using run_loop_rewards by blast
  show ?thesis using 1 2 3 4 5 6 by (intro conjI)
qed

theorem reward_collected_once_witness:
  "running reward_demo \<and> PAC_MOVE_INTERVAL \<le> 130 - last_pac_move_time reward_demo
   \<and> astar (cur_grid reward_demo) (pac_pos reward_demo) (goal_cell reward_demo)
        (Some (pac_blocked reward_demo)) = Some (Some [(5, 5), (5, 6), (5, 7)])
   \<and> reward_cells reward_demo = {(5, 6)} \<and> score reward_demo = 0
   \<and> map_option (\<lambda>s. (pac_pos s, reward_cells s, score s)) (pac_move 130 reward_demo)
        = Some (Some (5, 6), {}, 1)
   \<and> map_option (\<lambda>s. (pac_pos s, reward_cells s, score s, reason s))
        (run_ticks [(130, 130), (260, 260)] reward_demo) = Some (Some (5, 7), {}, 1, Some ''win'')
   \<and> mouse_edit True False (250, 250) True False reward_demo = reward_demo
   \<and> stays_running [Mouse True False (250, 250) True False, KeySpace 50, Logic 130 130] reward_demo
   \<and> map_option (\<lambda>s. (pac_pos s, reward_cells s, score s))
        (run_loop [Mouse True False (250, 250) True False, KeySpace 50, Logic 130 130] reward_demo)
        = Some (Some (5, 6), {}, 1)"
proof -
  have a: "running reward_demo \<and> PAC_MOVE_INTERVAL \<le> 130 - last_pac_move_time reward_demo"
    by code_simp
  have b: "astar (cur_grid reward_demo) (pac_pos reward_demo) (goal_cell reward_demo)
        (Some (pac_blocked reward_demo)) = Some (Some [(5, 5), (5, 6), (5, 7)])" by code_simp
  have c: "reward_cells reward_demo = {(5, 6)} \<and> score reward_demo = 0" by code_simp
  have d: "map_option (\<lambda>s. (pac_pos s, reward_cells s, score s, reason s))
        (run_ticks [(130, 130), (260, 260)] reward_demo) = Some (Some (5, 7), {}, 1, Some ''win'')"
    by code_simp
  have e: "stays_running [Mouse True False (250, 250) True False, KeySpace 50, Logic 130 130] reward_demo"
    by code_simp
  have f: "map_option (\<lambda>s. (pac_pos s, reward_cells s, score s))
        (run_loop [Mouse True False (250, 250) True False, KeySpace 50, Logic 130 130] reward_demo)
        = Some (Some (5, 6), {}, 1)"
    by code_simp
  note T = reward_collected_once[of reward_demo 130 130 "[(130, 130), (260, 260)]"
      True False "(250, 250)" True False 50 None]
  from T b c
  obtain st1 where "pac_move 130 reward_demo = Some st1" "pac_pos st1 = Some (5, 6)"
    "reward_cells st1 = {(5, 6)} - {(5, 6)}" "score st1 = 0 + 1"
    by auto
  then have g: "map_option (\<lambda>s. (pac_pos s, reward_cells s, score s)) (pac_move 130 reward_demo)
        = Some (Some (5, 6), {}, 1)" by simp
  from T a have h: "mouse_edit True False (250, 250) True False reward_demo = reward_demo"
    by blast
  show ?thesis using a b c d e f g h by simp
qed

section \<open>Properties of the level loader\<close>

lemma grid_ok_make_grid: "grid_ok make_grid"
  by (simp add: grid_ok_def make_grid_def list_all_iff)

lemma grid_ok_set_cell: "grid_ok grid \<Longrightarrow> grid_ok (set_cell grid r c v)"
proof (cases "nat r < length grid")
  case False
  assume "grid_ok grid"
  moreover have "grid[nat r := (grid ! nat r)[nat c := v]] = grid"
    using False by (intro list_update_beyond) simp
  ultimately show ?thesis by (simp add: set_cell_def)
next
  case True
  assume g: "grid_ok grid"
  have rows: "\<forall>row\<in>set grid. length row = nat COLS"
    using g by (simp add: grid_ok_def list_all_iff)
  have "grid ! nat r \<in> set grid" using True by simp
  then have len: "length ((grid ! nat r)[nat c := v]) = nat COLS" using rows by simp
  have "\<forall>row\<in>set (grid[nat r := (grid ! nat r)[nat c := v]]). length row = nat COLS"
  proof
    fix row assume "row \<in> set (grid[nat r := (grid ! nat r)[nat c := v]])"
    then have "row \<in> insert ((grid ! nat r)[nat c := v]) (set grid)"
      using set_update_subset_insert[of grid "nat r" "(grid ! nat r)[nat c := v]"] by blast
    then show "length row = nat COLS" using len rows by blast
  qed
  then show ?thesis using g by (simp add: grid_ok_def set_cell_def list_all_iff)
qed

lemma cell_at_set_cell:
  assumes "grid_ok grid" "in_bounds (r, c)" "in_bounds (r', c')"
  shows "cell_at (set_cell grid r c v) r' c' = (if r' = r \<and> c' = c then v else cell_at grid r' c')"
proof -
  have r: "nat r < length grid" "nat r' < length grid"
    using assms by (simp_all add: grid_ok_def in_bounds_def)
  have lr: "length (grid ! nat r) = nat COLS"
    using assms(1) r(1) by (simp add: grid_ok_def list_all_iff)
  have c: "nat c < length (grid ! nat r)" using assms(2) lr by (simp add: in_bounds_def)
  have eqr: "nat r' = nat r \<longleftrightarrow> r' = r" and eqc: "nat c' = nat c \<longleftrightarrow> c' = c"
    using assms(2,3) by (auto simp: in_bounds_def)
  show ?thesis
    using r c eqr eqc by (auto simp: cell_at_def set_cell_def nth_list_update)
qed

lemma fold_place_line:
  "fold (place_line ro co) rls lv
     = fold (place1 ro co) (concat (map (\<lambda>rl. map (Pair (fst rl)) (List.enumerate 0 (snd rl))) rls)) lv"
proof (induction rls arbitrary: lv)
  case Nil
  then show ?case by simp
next
  case (Cons rl rls)
  have "place1 ro co \<circ> Pair (fst rl) = place_char ro co (fst rl)"
    by (intro ext) (simp add: place1_def)
  then have "fold (place1 ro co) (map (Pair (fst rl)) (List.enumerate 0 (snd rl))) lv = place_line ro co rl lv"
    by (simp add: fold_map place_line_def)
  then show ?case using Cons.IH by simp
qed

lemma load_lines_fold:
  "lines \<noteq> [] \<Longrightarrow>
   load_lines lines
     = fold (place1 ((ROWS - int (length lines)) div 2) ((COLS - int (Max (set (map length lines)))) div 2))
         (level_chars lines) empty_level"
  by (simp add: load_lines_def Let_def fold_place_line level_chars_def)

lemma set_level_chars:
  "(r, c, ch) \<in> set (level_chars lines) \<longleftrightarrow> r < length lines \<and> c < length (lines ! r) \<and> ch = lines ! r ! c"
proof
  assume "(r, c, ch) \<in> set (level_chars lines)"
  then obtain rl where rl: "rl \<in> set (List.enumerate 0 lines)"
      "(r, c, ch) \<in> Pair (fst rl) ` set (List.enumerate 0 (snd rl))"
    by (auto simp: level_chars_def)
  then have "fst rl < length lines" "snd rl = lines ! fst rl" "r = fst rl"
      "(c, ch) \<in> set (List.enumerate 0 (snd rl))"
    by (auto simp: in_set_enumerate_eq)
  then show "r < length lines \<and> c < length (lines ! r) \<and> ch = lines ! r ! c"
    by (auto simp: in_set_enumerate_eq)
next
  assume a: "r < length lines \<and> c < length (lines ! r) \<and> ch = lines ! r ! c"
  then have "(r, lines ! r) \<in> set (List.enumerate 0 lines)"
    by (simp add: in_set_enumerate_eq)
  moreover have "(c, ch) \<in> set (List.enumerate 0 (lines ! r))"
    using a by (simp add: in_set_enumerate_eq)
  ultimately show "(r, c, ch) \<in> set (level_chars lines)"
    by (force simp: level_chars_def)
qed

lemma place1_eq:
  "place1 ro co (r, c, ch) lv =
     (if \<not> in_bounds (target ro co r c) then lv
      else ((if ch = CHR ''X'' then lv_grid lv
             else set_cell (lv_grid lv) (fst (target ro co r c)) (snd (target ro co r c)) (kind_of ch)),
            (if ch = CHR ''S'' then Some (target ro co r c) else lv_start lv),
            (if ch = CHR ''G'' then Some (target ro co r c) else lv_goal lv),
            (if ch = CHR ''D'' then insert (target ro co r c) (lv_rewards lv) else lv_rewards lv),
            (if ch = CHR ''X'' then lv_ghosts lv @ [target ro co r c] else lv_ghosts lv)))"
  by (cases lv)
     (simp add: place1_def place_char_def Let_def in_bounds_def target_def kind_of_def
        lv_grid_def lv_start_def lv_goal_def lv_rewards_def lv_ghosts_def)

lemma place1_parts:
  "lv_grid (place1 ro co (r, c, ch) lv) =
     (if in_bounds (target ro co r c) \<and> ch \<noteq> CHR ''X''
      then set_cell (lv_grid lv) (fst (target ro co r c)) (snd (target ro co r c)) (kind_of ch)
      else lv_grid lv)"
  "lv_start (place1 ro co (r, c, ch) lv) =
     (if in_bounds (target ro co r c) \<and> ch = CHR ''S'' then Some (target ro co r c) else lv_start lv)"
  "lv_goal (place1 ro co (r, c, ch) lv) =
     (if in_bounds (target ro co r c) \<and> ch = CHR ''G'' then Some (target ro co r c) else lv_goal lv)"
  "lv_rewards (place1 ro co (r, c, ch) lv) =
     (if in_bounds (target ro co r c) \<and> ch = CHR ''D'' then insert (target ro co r c) (lv_rewards lv)
      else lv_rewards lv)"
  "lv_ghosts (place1 ro co (r, c, ch) lv) =
     (if in_bounds (target ro co r c) \<and> ch = CHR ''X'' then lv_ghosts lv @ [target ro co r c]
      else lv_ghosts lv)"
  unfolding place1_eq
  by (simp_all add: lv_grid_def lv_start_def lv_goal_def lv_rewards_def lv_ghosts_def)

lemma fold_place1_rewards:
  "lv_rewards (fold (place1 ro co) cs lv)
     = lv_rewards lv \<union> {target ro co r c | r c. (r, c, CHR ''D'') \<in> set cs \<and> in_bounds (target ro co r c)}"
proof (induction cs arbitrary: lv)
  case Nil
  then show ?case by simp
next
  case (Cons x cs)
  obtain r c ch where x: "x = (r, c, ch)" by (cases x)
  show ?case unfolding x by (auto simp: Cons.IH place1_parts)
qed

lemma fold_place1_ghosts:
  "set (lv_ghosts (fold (place1 ro co) cs lv))
     = set (lv_ghosts lv) \<union> {target ro co r c | r c. (r, c, CHR ''X'') \<in> set cs \<and> in_bounds (target ro co r c)}"
proof (induction cs arbitrary: lv)
  case Nil
  then show ?case by simp
next
  case (Cons x cs)
  obtain r c ch where x: "x = (r, c, ch)" by (cases x)
  show ?case unfolding x by (auto simp: Cons.IH place1_parts)
qed

lemma fold_place1_start:
  "(lv_start (fold (place1 ro co) cs lv) = lv_start lv
      \<and> (\<forall>r c. (r, c, CHR ''S'') \<in> set cs \<longrightarrow> \<not> in_bounds (target ro co r c)))
   \<or> (\<exists>r c. (r, c, CHR ''S'') \<in> set cs \<and> in_bounds (target ro co r c)
          \<and> lv_start (fold (place1 ro co) cs lv) = Some (target ro co r c))"
proof (induction cs arbitrary: lv)
  case Nil
  then show ?case by simp
next
  case (Cons x cs)
  obtain r c ch where x: "x = (r, c, ch)" by (cases x)
  from Cons.IH[of "place1 ro co x lv"] show ?case
    unfolding x by (cases "in_bounds (target ro co r c) \<and> ch = CHR ''S''") (auto simp: place1_parts)
qed

lemma fold_place1_goal:
  "(lv_goal (fold (place1 ro co) cs lv) = lv_goal lv
      \<and> (\<forall>r c. (r, c, CHR ''G'') \<in> set cs \<longrightarrow> \<not> in_bounds (target ro co r c)))
   \<or> (\<exists>r c. (r, c, CHR ''G'') \<in> set cs \<and> in_bounds (target ro co r c)
          \<and> lv_goal (fold (place1 ro co) cs lv) = Some (target ro co r c))"
proof (induction cs arbitrary: lv)
  case Nil
  then show ?case by simp
next
  case (Cons x cs)
  obtain r c ch where x: "x = (r, c, ch)" by (cases x)
  from Cons.IH[of "place1 ro co x lv"] show ?case
    unfolding x by (cases "in_bounds (target ro co r c) \<and> ch = CHR ''G''") (auto simp: place1_parts)
qed

lemma fold_place1_grid_ok:
  "grid_ok (lv_grid lv) \<Longrightarrow> grid_ok (lv_grid (fold (place1 ro co) cs lv))"
proof (induction cs arbitrary: lv)
  case Nil
  then show ?case by simp
next
  case (Cons x cs)
  obtain r c ch where x: "x = (r, c, ch)" by (cases x)
  have "grid_ok (lv_grid (place1 ro co x lv))"
    unfolding x using Cons.prems by (simp add: place1_parts grid_ok_set_cell)
  then show ?case using Cons.IH by simp
qed

lemma target_inj: "target ro co r c = target ro co r' c' \<longleftrightarrow> r = r' \<and> c = c'"
  by (auto simp: target_def)

lemma cell_at_place1:
  assumes "grid_ok (lv_grid lv)" "in_bounds p"
  shows "cell_at (lv_grid (place1 ro co (r, c, ch) lv)) (fst p) (snd p) =
     (if target ro co r c = p \<and> ch \<noteq> CHR ''X'' then kind_of ch
      else cell_at (lv_grid lv) (fst p) (snd p))"
proof (cases "in_bounds (target ro co r c) \<and> ch \<noteq> CHR ''X''")
  case False
  then show ?thesis using assms(2) by (auto simp: place1_parts)
next
  case True
  then have "in_bounds (fst (target ro co r c), snd (target ro co r c))" by simp
  moreover have "in_bounds (fst p, snd p)" using assms(2) by simp
  ultimately have "cell_at (set_cell (lv_grid lv) (fst (target ro co r c)) (snd (target ro co r c)) (kind_of ch))
          (fst p) (snd p)
        = (if fst p = fst (target ro co r c) \<and> snd p = snd (target ro co r c) then kind_of ch
           else cell_at (lv_grid lv) (fst p) (snd p))"
    using assms(1) by (intro cell_at_set_cell)
  then show ?thesis using True by (auto simp: place1_parts prod_eq_iff)
qed

lemma fold_place1_grid:
  assumes "grid_ok (lv_grid lv)"
    and "\<forall>r c ch ch'. (r, c, ch) \<in> set cs \<and> (r, c, ch') \<in> set cs \<longrightarrow> ch = ch'"
  shows "(\<forall>r c ch. (r, c, ch) \<in> set cs \<and> in_bounds (target ro co r c) \<and> ch \<noteq> CHR ''X'' \<longrightarrow>
            cell_at (lv_grid (fold (place1 ro co) cs lv)) (fst (target ro co r c)) (snd (target ro co r c))
              = kind_of ch)
     \<and> (\<forall>p. in_bounds p \<and> (\<forall>r c ch. (r, c, ch) \<in> set cs \<and> target ro co r c = p \<longrightarrow> ch = CHR ''X'') \<longrightarrow>
            cell_at (lv_grid (fold (place1 ro co) cs lv)) (fst p) (snd p)
              = cell_at (lv_grid lv) (fst p) (snd p))"
  using assms
proof (induction cs arbitrary: lv)
  case Nil
  then show ?case by simp
next
  case (Cons x cs)
  obtain r0 c0 ch0 where x: "x = (r0, c0, ch0)" by (cases x)
  define lv1 where "lv1 = place1 ro co x lv"
  define res where "res = fold (place1 ro co) cs lv1"
  have ok1: "grid_ok (lv_grid lv1)"
    unfolding lv1_def x using Cons.prems(1) by (simp add: place1_parts grid_ok_set_cell)
  have fn: "\<forall>r c ch ch'. (r, c, ch) \<in> set cs \<and> (r, c, ch') \<in> set cs \<longrightarrow> ch = ch'"
  proof (intro allI impI)
    fix r c ch ch' assume "(r, c, ch) \<in> set cs \<and> (r, c, ch') \<in> set cs"
    then have "(r, c, ch) \<in> set (x # cs) \<and> (r, c, ch') \<in> set (x # cs)" by simp
    then show "ch = ch'" using Cons.prems(2) by blast
  qed
  from Cons.IH[OF ok1 fn] have
    ihb: "\<And>r c ch. (r, c, ch) \<in> set cs \<Longrightarrow> in_bounds (target ro co r c) \<Longrightarrow> ch \<noteq> CHR ''X'' \<Longrightarrow>
            cell_at (lv_grid res) (fst (target ro co r c)) (snd (target ro co r c)) = kind_of ch"
    and ihc: "\<And>p. in_bounds p \<Longrightarrow> (\<forall>r c ch. (r, c, ch) \<in> set cs \<and> target ro co r c = p \<longrightarrow> ch = CHR ''X'') \<Longrightarrow>
            cell_at (lv_grid res) (fst p) (snd p) = cell_at (lv_grid lv1) (fst p) (snd p)"
    unfolding res_def by blast+
  have step: "\<And>p. in_bounds p \<Longrightarrow> cell_at (lv_grid lv1) (fst p) (snd p) =
     (if target ro co r0 c0 = p \<and> ch0 \<noteq> CHR ''X'' then kind_of ch0
      else cell_at (lv_grid lv) (fst p) (snd p))"
    unfolding lv1_def x by (rule cell_at_place1[OF Cons.prems(1)])
  have res: "fold (place1 ro co) (x # cs) lv = res" by (simp add: res_def lv1_def)
  have b: "cell_at (lv_grid res) (fst (target ro co r c)) (snd (target ro co r c)) = kind_of ch"
    if el: "(r, c, ch) \<in> set (x # cs)" and inb: "in_bounds (target ro co r c)" and nx: "ch \<noteq> CHR ''X''"
    for r c ch
  proof (cases "(r, c, ch) \<in> set cs")
    case True
    then show ?thesis using ihb inb nx by blast
  next
    case False
    then have eq: "r = r0" "c = c0" "ch = ch0" using el x by auto
    have none: "\<forall>r' c' ch'. (r', c', ch') \<in> set cs \<and> target ro co r' c' = target ro co r c \<longrightarrow> ch' = CHR ''X''"
    proof (intro allI impI)
      fix r' c' ch' assume a: "(r', c', ch') \<in> set cs \<and> target ro co r' c' = target ro co r c"
      then have "r' = r" "c' = c" by (simp_all add: target_inj)
      then have "(r, c, ch') \<in> set (x # cs)" using a by simp
      then have "ch' = ch" using Cons.prems(2) el by blast
      then have "(r, c, ch) \<in> set cs" using a \<open>r' = r\<close> \<open>c' = c\<close> by simp
      then show "ch' = CHR ''X''" using False by simp
    qed
    have "cell_at (lv_grid res) (fst (target ro co r c)) (snd (target ro co r c))
        = cell_at (lv_grid lv1) (fst (target ro co r c)) (snd (target ro co r c))"
      by (rule ihc[OF inb none])
    also have "\<dots> = kind_of ch" using step[OF inb] eq nx by simp
    finally show ?thesis .
  qed
  have c: "cell_at (lv_grid res) (fst p) (snd p) = cell_at (lv_grid lv) (fst p) (snd p)"
    if inb: "in_bounds p"
      and allx: "\<forall>r c ch. (r, c, ch) \<in> set (x # cs) \<and> target ro co r c = p \<longrightarrow> ch = CHR ''X''"
    for p
  proof -
    have "\<forall>r c ch. (r, c, ch) \<in> set cs \<and> target ro co r c = p \<longrightarrow> ch = CHR ''X''"
    proof (intro allI impI)
      fix r c ch assume a: "(r, c, ch) \<in> set cs \<and> target ro co r c = p"
      then have "(r, c, ch) \<in> set (x # cs) \<and> target ro co r c = p" by simp
      then show "ch = CHR ''X''" using allx by blast
    qed
    then have "cell_at (lv_grid res) (fst p) (snd p) = cell_at (lv_grid lv1) (fst p) (snd p)"
      by (rule ihc[OF inb])
    moreover have "\<not> (target ro co r0 c0 = p \<and> ch0 \<noteq> CHR ''X'')"
    proof
      assume a: "target ro co r0 c0 = p \<and> ch0 \<noteq> CHR ''X''"
      have "(r0, c0, ch0) \<in> set (x # cs) \<and> target ro co r0 c0 = p" using a x by simp
      then have "ch0 = CHR ''X''" using allx by blast
      then show False using a by simp
    qed
    ultimately show ?thesis using step[OF inb] by simp
  qed
  show ?case unfolding res using b c by blast
qed

lemma cell_at_make_grid: "in_bounds p \<Longrightarrow> cell_at make_grid (fst p) (snd p) = EMPTY"
  by (simp add: cell_at_def make_grid_def in_bounds_def)

lemma level_chars_functional:
  "\<forall>r c ch ch'. (r, c, ch) \<in> set (level_chars lines) \<and> (r, c, ch') \<in> set (level_chars lines) \<longrightarrow> ch = ch'"
  by (simp add: set_level_chars)

lemma enumerate_nth: "List.enumerate 0 xs = map (\<lambda>i. (i, xs ! i)) [0..<length xs]"
  by (rule nth_equalityI) (simp_all add: nth_enumerate_eq)

lemma level_chars_alt:
  "level_chars lines
     = concat (map (\<lambda>r. map (\<lambda>c. (r, c, lines ! r ! c)) [0..<length (lines ! r)]) [0..<length lines])"
  by (simp add: level_chars_def enumerate_nth comp_def)

lemma cells_of_concat:
  "cells_of ro co ch (concat xss) = concat (map (cells_of ro co ch) xss)"
  by (induction xss) (simp_all add: cells_of_def)

lemma cells_of_row:
  "cells_of ro co ch (map (\<lambda>c. (r, c, line ! c)) cols)
     = concat (map (\<lambda>c. if line ! c = ch then (if in_bounds (int r + ro, int c + co)
                                                 then [(int r + ro, int c + co)] else []) else []) cols)"
  by (induction cols) (simp_all add: cells_of_def target_def)

lemma char_cells_eq: "char_cells lines ro co ch = cells_of ro co ch (level_chars lines)"
  by (simp add: char_cells_def level_chars_alt cells_of_concat comp_def cells_of_row)

lemma set_cells_of:
  "set (cells_of ro co ch cs)
     = {target ro co r c | r c. (r, c, ch) \<in> set cs \<and> in_bounds (target ro co r c)}"
  by (force simp: cells_of_def)

lemma cells_of_Cons:
  "cells_of ro co ch ((r, c, ch') # cs)
     = (if ch' = ch \<and> in_bounds (target ro co r c) then target ro co r c # cells_of ro co ch cs
        else cells_of ro co ch cs)"
  by (simp add: cells_of_def)

lemma fold_place1_ghosts_list:
  "lv_ghosts (fold (place1 ro co) cs lv) = lv_ghosts lv @ cells_of ro co (CHR ''X'') cs"
proof (induction cs arbitrary: lv)
  case Nil
  then show ?case by (simp add: cells_of_def)
next
  case (Cons x cs)
  obtain r c ch where x: "x = (r, c, ch)" by (cases x)
  show ?case unfolding x by (simp add: Cons.IH place1_parts cells_of_Cons)
qed

lemma fold_place1_start_last:
  "lv_start (fold (place1 ro co) cs lv)
     = (if cells_of ro co (CHR ''S'') cs = [] then lv_start lv
        else Some (last (cells_of ro co (CHR ''S'') cs)))"
proof (induction cs arbitrary: lv)
  case Nil
  then show ?case by (simp add: cells_of_def)
next
  case (Cons x cs)
  obtain r c ch where x: "x = (r, c, ch)" by (cases x)
  show ?case unfolding x by (simp add: Cons.IH place1_parts cells_of_Cons)
qed

lemma fold_place1_goal_last:
  "lv_goal (fold (place1 ro co) cs lv)
     = (if cells_of ro co (CHR ''G'') cs = [] then lv_goal lv
        else Some (last (cells_of ro co (CHR ''G'') cs)))"
proof (induction cs arbitrary: lv)
  case Nil
  then show ?case by (simp add: cells_of_def)
next
  case (Cons x cs)
  obtain r c ch where x: "x = (r, c, ch)" by (cases x)
  show ?case unfolding x by (simp add: Cons.IH place1_parts cells_of_Cons)
qed

lemma translate_newlines_no_cr: "CHR 0x0D \<notin> set (translate_newlines s)"
  by (induction s rule: translate_newlines.induct) simp_all

lemma concat_split_lines: "concat (split_lines s) = s"
  by (induction s) (auto split: list.splits)

lemma split_lines_line:
  "line \<in> set (split_lines s) \<Longrightarrow> line \<noteq> [] \<and> CHR 0x0A \<notin> set (butlast line)"
proof (induction s arbitrary: line)
  case Nil
  then show ?case by simp
next
  case (Cons ch rest)
  show ?case
  proof (cases "ch = CHR 0x0A")
    case True
    then show ?thesis using Cons by auto
  next
    case False
    show ?thesis
    proof (cases "split_lines rest")
      case Nil
      then show ?thesis using Cons.prems False by simp
    next
      case (Cons l more)
      then have l: "l \<noteq> [] \<and> CHR 0x0A \<notin> set (butlast l)" using Cons.IH[of l] by simp
      from Cons Cons.prems False have "line = ch # l \<or> line \<in> set (split_lines rest)" by auto
      then show ?thesis
      proof
        assume "line = ch # l"
        then show ?thesis using l False by simp
      next
        assume "line \<in> set (split_lines rest)"
        then show ?thesis by (rule Cons.IH)
      qed
    qed
  qed
qed

lemma set_split_lines: "line \<in> set (split_lines s) \<Longrightarrow> set line \<subseteq> set s"
proof -
  assume "line \<in> set (split_lines s)"
  then have "set line \<subseteq> set (concat (split_lines s))" by auto
  then show ?thesis by (simp add: concat_split_lines)
qed

lemma set_rstrip_newline: "set (rstrip_newline line) \<subseteq> set line"
  using set_dropWhileD[of _ "\<lambda>ch. ch = CHR 0x0A" "rev line"] by (auto simp: rstrip_newline_def)

lemma rstrip_newline_keeps:
  "ch \<in> set line \<Longrightarrow> ch \<noteq> CHR 0x0A \<Longrightarrow> ch \<in> set (rstrip_newline line)"
proof -
  assume a: "ch \<in> set line" "ch \<noteq> CHR 0x0A"
  have "set (rev line) = set (takeWhile (\<lambda>ch. ch = CHR 0x0A) (rev line))
                           \<union> set (dropWhile (\<lambda>ch. ch = CHR 0x0A) (rev line))"
    by (metis set_append takeWhile_dropWhile_id)
  moreover have "ch \<notin> set (takeWhile (\<lambda>ch. ch = CHR 0x0A) (rev line))"
    using a(2) set_takeWhileD by fastforce
  ultimately show ?thesis using a(1) by (simp add: rstrip_newline_def)
qed

lemma rstrip_newline_no_lf:
  assumes "CHR 0x0A \<notin> set (butlast line)"
  shows "CHR 0x0A \<notin> set (rstrip_newline line)"
proof (cases "line = []")
  case True
  then show ?thesis by (simp add: rstrip_newline_def)
next
  case False
  then have l: "line = butlast line @ [last line]" by simp
  show ?thesis
  proof (cases "last line = CHR 0x0A")
    case True
    have "rstrip_newline line = rstrip_newline (butlast line)"
      by (subst l) (simp add: rstrip_newline_def True)
    then show ?thesis using assms set_rstrip_newline[of "butlast line"] by auto
  next
    case False
    then have "CHR 0x0A \<notin> set line" using assms by (subst l) simp
    then show ?thesis using set_rstrip_newline[of line] by auto
  qed
qed

lemma level_lines_clean:
  assumes "line \<in> set (map rstrip_newline
                          (filter (\<lambda>line. \<exists>ch\<in>set line. \<not> is_space ch) (file_lines content)))"
  shows "CHR 0x0A \<notin> set line \<and> CHR 0x0D \<notin> set line \<and> (\<exists>ch\<in>set line. \<not> is_space ch)"
proof -
  from assms obtain raw where raw: "raw \<in> set (file_lines content)" "\<exists>ch\<in>set raw. \<not> is_space ch"
      "line = rstrip_newline raw"
    by auto
  have "CHR 0x0A \<notin> set (butlast raw)" using raw(1) split_lines_line by (simp add: file_lines_def)
  then have 1: "CHR 0x0A \<notin> set line" unfolding raw(3) by (rule rstrip_newline_no_lf)
  have "set raw \<subseteq> set (translate_newlines content)"
    using raw(1) set_split_lines by (simp add: file_lines_def)
  then have "CHR 0x0D \<notin> set raw" using translate_newlines_no_cr by blast
  then have 2: "CHR 0x0D \<notin> set line" unfolding raw(3) using set_rstrip_newline by blast
  from raw(2) obtain ch where ch: "ch \<in> set raw" "\<not> is_space ch" by blast
  then have "ch \<noteq> CHR 0x0A" by (auto simp: is_space_def)
  then have "ch \<in> set line" unfolding raw(3) using ch(1) by (rule rstrip_newline_keeps[rotated])
  then have 3: "\<exists>ch\<in>set line. \<not> is_space ch" using ch(2) by blast
  show ?thesis using 1 2 3 by blast
qed

lemma load_lines_placement:
  assumes "lines \<noteq> []"
    and "ro = (ROWS - int (length lines)) div 2"
    and "co = (COLS - int (Max (set (map length lines)))) div 2"
    and "load_lines lines = (grid, start, goal, rewards, ghosts)"
  shows "grid_ok grid
     \<and> (\<forall>r c. r < length lines \<and> c < length (lines ! r) \<and> in_bounds (int r + ro, int c + co) \<longrightarrow>
           cell_at grid (int r + ro) (int c + co) = kind_of (lines ! r ! c)
           \<and> ((int r + ro, int c + co) \<in> rewards \<longleftrightarrow> lines ! r ! c = CHR ''D'')
           \<and> ((int r + ro, int c + co) \<in> set ghosts \<longleftrightarrow> lines ! r ! c = CHR ''X'')
           \<and> (lines ! r ! c = CHR ''S'' \<longrightarrow> start \<noteq> None)
           \<and> (lines ! r ! c = CHR ''G'' \<longrightarrow> goal \<noteq> None))
     \<and> (\<forall>p. start = Some p \<longrightarrow>
           (\<exists>r c. r < length lines \<and> c < length (lines ! r) \<and> p = (int r + ro, int c + co)
              \<and> in_bounds p \<and> lines ! r ! c = CHR ''S''))
     \<and> (\<forall>p. goal = Some p \<longrightarrow>
           (\<exists>r c. r < length lines \<and> c < length (lines ! r) \<and> p = (int r + ro, int c + co)
              \<and> in_bounds p \<and> lines ! r ! c = CHR ''G''))
     \<and> (\<forall>p. p \<in> rewards \<or> p \<in> set ghosts \<or> (in_bounds p \<and> cell_at grid (fst p) (snd p) \<noteq> EMPTY) \<longrightarrow>
           (\<exists>r c. r < length lines \<and> c < length (lines ! r) \<and> p = (int r + ro, int c + co)
              \<and> in_bounds p))
     \<and> rewards = set (char_cells lines ro co (CHR ''D''))
     \<and> ghosts = char_cells lines ro co (CHR ''X'')
     \<and> start = (if char_cells lines ro co (CHR ''S'') = [] then None
                else Some (last (char_cells lines ro co (CHR ''S''))))
     \<and> goal = (if char_cells lines ro co (CHR ''G'') = [] then None
               else Some (last (char_cells lines ro co (CHR ''G''))))"
proof -
  define cs where "cs = level_chars lines"
  define res where "res = fold (place1 ro co) cs empty_level"
  have res_eq: "res = (grid, start, goal, rewards, ghosts)"
    using load_lines_fold[OF assms(1)] assms(2,3,4) by (simp add: res_def cs_def)
  have parts: "lv_grid res = grid" "lv_start res = start" "lv_goal res = goal"
    "lv_rewards res = rewards" "lv_ghosts res = ghosts"
    by (simp_all add: res_eq lv_grid_def lv_start_def lv_goal_def lv_rewards_def lv_ghosts_def)
  have init: "lv_grid empty_level = make_grid" "lv_start empty_level = None" "lv_goal empty_level = None"
    "lv_rewards empty_level = {}" "lv_ghosts empty_level = []"
    by (simp_all add: empty_level_def lv_grid_def lv_start_def lv_goal_def lv_rewards_def lv_ghosts_def)
  have mem: "\<And>r c ch. (r, c, ch) \<in> set cs \<longleftrightarrow> r < length lines \<and> c < length (lines ! r) \<and> ch = lines ! r ! c"
    by (simp add: cs_def set_level_chars)
  have tg: "\<And>r c. target ro co r c = (int r + ro, int c + co)" by (simp add: target_def)
  have ok0: "grid_ok (lv_grid empty_level)" by (simp add: init grid_ok_make_grid)
  have ok: "grid_ok grid"
    using fold_place1_grid_ok[OF ok0, of ro co cs] by (simp add: res_def[symmetric] parts)
  have fn: "\<forall>r c ch ch'. (r, c, ch) \<in> set cs \<and> (r, c, ch') \<in> set cs \<longrightarrow> ch = ch'"
    unfolding cs_def by (rule level_chars_functional)
  from fold_place1_grid[OF ok0 fn, of ro co] have
    gb: "\<And>r c ch. (r, c, ch) \<in> set cs \<Longrightarrow> in_bounds (target ro co r c) \<Longrightarrow> ch \<noteq> CHR ''X'' \<Longrightarrow>
            cell_at grid (fst (target ro co r c)) (snd (target ro co r c)) = kind_of ch"
    and gc: "\<And>p. in_bounds p \<Longrightarrow> (\<forall>r c ch. (r, c, ch) \<in> set cs \<and> target ro co r c = p \<longrightarrow> ch = CHR ''X'') \<Longrightarrow>
            cell_at grid (fst p) (snd p) = EMPTY"
    unfolding res_def[symmetric] parts init by (simp_all add: cell_at_make_grid)
  have rw: "rewards = {target ro co r c | r c. (r, c, CHR ''D'') \<in> set cs \<and> in_bounds (target ro co r c)}"
    using fold_place1_rewards[of ro co cs empty_level] by (simp add: res_def[symmetric] parts init)
  have gh: "set ghosts = {target ro co r c | r c. (r, c, CHR ''X'') \<in> set cs \<and> in_bounds (target ro co r c)}"
    using fold_place1_ghosts[of ro co cs empty_level] by (simp add: res_def[symmetric] parts init)
  have st: "(start = None \<and> (\<forall>r c. (r, c, CHR ''S'') \<in> set cs \<longrightarrow> \<not> in_bounds (target ro co r c)))
     \<or> (\<exists>r c. (r, c, CHR ''S'') \<in> set cs \<and> in_bounds (target ro co r c) \<and> start = Some (target ro co r c))"
    using fold_place1_start[of ro co cs empty_level] by (simp add: res_def[symmetric] parts init)
  have go: "(goal = None \<and> (\<forall>r c. (r, c, CHR ''G'') \<in> set cs \<longrightarrow> \<not> in_bounds (target ro co r c)))
     \<or> (\<exists>r c. (r, c, CHR ''G'') \<in> set cs \<and> in_bounds (target ro co r c) \<and> goal = Some (target ro co r c))"
    using fold_place1_goal[of ro co cs empty_level] by (simp add: res_def[symmetric] parts init)
  have A: "cell_at grid (int r + ro) (int c + co) = kind_of (lines ! r ! c)
           \<and> ((int r + ro, int c + co) \<in> rewards \<longleftrightarrow> lines ! r ! c = CHR ''D'')
           \<and> ((int r + ro, int c + co) \<in> set ghosts \<longleftrightarrow> lines ! r ! c = CHR ''X'')
           \<and> (lines ! r ! c = CHR ''S'' \<longrightarrow> start \<noteq> None)
           \<and> (lines ! r ! c = CHR ''G'' \<longrightarrow> goal \<noteq> None)"
    if h: "r < length lines \<and> c < length (lines ! r) \<and> in_bounds (int r + ro, int c + co)" for r c
  proof -
    have el: "(r, c, lines ! r ! c) \<in> set cs" using h mem by simp
    have inb: "in_bounds (target ro co r c)" using h tg by simp
    have uniq: "ch' = lines ! r ! c"
      if "(r', c', ch') \<in> set cs" "target ro co r' c' = target ro co r c" for r' c' ch'
    proof -
      have "r' = r" "c' = c" using that(2) by (simp_all add: target_inj)
      then have "(r, c, ch') \<in> set cs" using that(1) by simp
      then show ?thesis by (simp add: mem)
    qed
    have cell: "cell_at grid (int r + ro) (int c + co) = kind_of (lines ! r ! c)"
    proof (cases "lines ! r ! c = CHR ''X''")
      case True
      have "cell_at grid (fst (target ro co r c)) (snd (target ro co r c)) = EMPTY"
        by (rule gc[OF inb]) (use uniq True in blast)
      then show ?thesis using True by (simp add: tg kind_of_def)
    next
      case False
      from gb[OF el inb False] show ?thesis by (simp add: tg)
    qed
    have r1: "(int r + ro, int c + co) \<in> rewards \<longleftrightarrow> lines ! r ! c = CHR ''D''"
    proof
      assume "(int r + ro, int c + co) \<in> rewards"
      then obtain r' c' where "(r', c', CHR ''D'') \<in> set cs" "target ro co r' c' = target ro co r c"
        unfolding rw tg by auto
      then show "lines ! r ! c = CHR ''D''" using uniq by metis
    next
      assume "lines ! r ! c = CHR ''D''"
      then have "(r, c, CHR ''D'') \<in> set cs" using el by simp
      then show "(int r + ro, int c + co) \<in> rewards" unfolding rw using inb tg by auto
    qed
    have r2: "(int r + ro, int c + co) \<in> set ghosts \<longleftrightarrow> lines ! r ! c = CHR ''X''"
    proof
      assume "(int r + ro, int c + co) \<in> set ghosts"
      then obtain r' c' where "(r', c', CHR ''X'') \<in> set cs" "target ro co r' c' = target ro co r c"
        unfolding gh tg by auto
      then show "lines ! r ! c = CHR ''X''" using uniq by metis
    next
      assume "lines ! r ! c = CHR ''X''"
      then have "(r, c, CHR ''X'') \<in> set cs" using el by simp
      then show "(int r + ro, int c + co) \<in> set ghosts" unfolding gh using inb tg by auto
    qed
    have r3: "lines ! r ! c = CHR ''S'' \<longrightarrow> start \<noteq> None"
      using st el inb by auto
    have r4: "lines ! r ! c = CHR ''G'' \<longrightarrow> goal \<noteq> None"
      using go el inb by auto
    show ?thesis using cell r1 r2 r3 r4 by blast
  qed
  have B: "\<exists>r c. r < length lines \<and> c < length (lines ! r) \<and> p = (int r + ro, int c + co)
              \<and> in_bounds p \<and> lines ! r ! c = CHR ''S''" if "start = Some p" for p
    using st that mem tg by auto
  have C: "\<exists>r c. r < length lines \<and> c < length (lines ! r) \<and> p = (int r + ro, int c + co)
              \<and> in_bounds p \<and> lines ! r ! c = CHR ''G''" if "goal = Some p" for p
    using go that mem tg by auto
  have D: "\<exists>r c. r < length lines \<and> c < length (lines ! r) \<and> p = (int r + ro, int c + co) \<and> in_bounds p"
    if h: "p \<in> rewards \<or> p \<in> set ghosts \<or> (in_bounds p \<and> cell_at grid (fst p) (snd p) \<noteq> EMPTY)" for p
  proof -
    have "\<exists>r c ch. (r, c, ch) \<in> set cs \<and> target ro co r c = p \<and> in_bounds p"
    proof (rule ccontr)
      assume no: "\<not> (\<exists>r c ch. (r, c, ch) \<in> set cs \<and> target ro co r c = p \<and> in_bounds p)"
      have "p \<notin> rewards" unfolding rw using no by blast
      moreover have "p \<notin> set ghosts" unfolding gh using no by blast
      moreover have "\<not> (in_bounds p \<and> cell_at grid (fst p) (snd p) \<noteq> EMPTY)"
      proof
        assume a: "in_bounds p \<and> cell_at grid (fst p) (snd p) \<noteq> EMPTY"
        then have "cell_at grid (fst p) (snd p) = EMPTY"
          using gc[of p] no by blast
        then show False using a by simp
      qed
      ultimately show False using h by blast
    qed
    then show ?thesis using mem tg by auto
  qed
  have E1: "rewards = set (char_cells lines ro co (CHR ''D''))"
    unfolding rw char_cells_eq set_cells_of cs_def ..
  have E2: "ghosts = char_cells lines ro co (CHR ''X'')"
  proof -
    have "lv_ghosts res = lv_ghosts empty_level @ cells_of ro co (CHR ''X'') cs"
      unfolding res_def by (rule fold_place1_ghosts_list)
    then show ?thesis by (simp add: parts init char_cells_eq cs_def)
  qed
  have E3: "start = (if char_cells lines ro co (CHR ''S'') = [] then None
                else Some (last (char_cells lines ro co (CHR ''S''))))"
  proof -
    have "lv_start res = (if cells_of ro co (CHR ''S'') cs = [] then lv_start empty_level
                          else Some (last (cells_of ro co (CHR ''S'') cs)))"
      unfolding res_def by (rule fold_place1_start_last)
    then show ?thesis by (simp add: parts init char_cells_eq cs_def)
  qed
  have E4: "goal = (if char_cells lines ro co (CHR ''G'') = [] then None
               else Some (last (char_cells lines ro co (CHR ''G''))))"
  proof -
    have "lv_goal res = (if cells_of ro co (CHR ''G'') cs = [] then lv_goal empty_level
                         else Some (last (cells_of ro co (CHR ''G'') cs)))"
      unfolding res_def by (rule fold_place1_goal_last)
    then show ?thesis by (simp add: parts init char_cells_eq cs_def)
  qed
  show ?thesis using ok A B C D E1 E2 E3 E4 by blast
qed


lemma list_all_not_ex: "(\<not> list_all is_space line) = (\<exists>ch\<in>set line. \<not> is_space ch)"
  by (simp add: list_all_iff)

text \<open>
  C10. \<open>load_level\<close> on a file that exists: let \<open>lines\<close> be the lines of the file (read with
  universal newlines) that are not blank, each without its line feed; such a line holds no
  line feed and no carriage return. With the offsets \<open>(ROWS - level_rows) div 2\<close> and
  \<open>(COLS - level_cols) div 2\<close>, each character (r, c) whose cell
  (r + row offset, c + column offset) is in bounds decides that cell (a wall for \<open>#\<close>, start
  for \<open>S\<close>, goal for \<open>G\<close>, a reward for \<open>D\<close>, a ghost on an empty cell for \<open>X\<close>, empty
  otherwise), and nothing is placed for a character whose cell is out of bounds: every start,
  goal, reward, ghost and non-empty cell comes from a character at an in-bounds cell. The
  rewards are the in-bounds cells of the \<open>D\<close>s, the ghost list the in-bounds cells of the
  \<open>X\<close>s in the order of the file, start and goal the in-bounds cell of the last \<open>S\<close> and of
  the last \<open>G\<close>. A missing file and a file of blank lines give the empty level.
\<close>

theorem load_level_placement:
  assumes "lines = map rstrip_newline
                     (filter (\<lambda>line. \<exists>ch\<in>set line. \<not> is_space ch) (file_lines content))"
    and "lines \<noteq> []"
    and "ro = (ROWS - int (length lines)) div 2"
    and "co = (COLS - int (Max (set (map length lines)))) div 2"
    and "load_level (Some content) = (grid, start, goal, rewards, ghosts)"
  shows "grid_ok grid
     \<and> (\<forall>r c. r < length lines \<and> c < length (lines ! r) \<and> in_bounds (int r + ro, int c + co) \<longrightarrow>
           cell_at grid (int r + ro) (int c + co) = kind_of (lines ! r ! c)
           \<and> ((int r + ro, int c + co) \<in> rewards \<longleftrightarrow> lines ! r ! c = CHR ''D'')
           \<and> ((int r + ro, int c + co) \<in> set ghosts \<longleftrightarrow> lines ! r ! c = CHR ''X'')
           \<and> (lines ! r ! c = CHR ''S'' \<longrightarrow> start \<noteq> None)
           \<and> (lines ! r ! c = CHR ''G'' \<longrightarrow> goal \<noteq> None))
     \<and> (\<forall>p. start = Some p \<longrightarrow>
           (\<exists>r c. r < length lines \<and> c < length (lines ! r) \<and> p = (int r + ro, int c + co)
              \<and> in_bounds p \<and> lines ! r ! c = CHR ''S''))
     \<and> (\<forall>p. goal = Some p \<longrightarrow>
           (\<exists>r c. r < length lines \<and> c < length (lines ! r) \<and> p = (int r + ro, int c + co)
              \<and> in_bounds p \<and> lines ! r ! c = CHR ''G''))
     \<and> (\<forall>p. p \<in> rewards \<or> p \<in> set ghosts \<or> (in_bounds p \<and> cell_at grid (fst p) (snd p) \<noteq> EMPTY) \<longrightarrow>
           (\<exists>r c. r < length lines \<and> c < length (lines ! r) \<and> p = (int r + ro, int c + co)
              \<and> in_bounds p))
     \<and> rewards = set (char_cells lines ro co (CHR ''D''))
     \<and> ghosts = char_cells lines ro co (CHR ''X'')
     \<and> start = (if char_cells lines ro co (CHR ''S'') = [] then None
                else Some (last (char_cells lines ro co (CHR ''S''))))
     \<and> goal = (if char_cells lines ro co (CHR ''G'') = [] then None
               else Some (last (char_cells lines ro co (CHR ''G''))))
     \<and> (\<forall>line\<in>set lines. CHR 0x0A \<notin> set line \<and> CHR 0x0D \<notin> set line
                           \<and> (\<exists>ch\<in>set line. \<not> is_space ch))
     \<and> load_level None = (make_grid, None, None, {}, [])
     \<and> (\<forall>blank. (\<forall>line\<in>set (file_lines blank). list_all is_space line) \<longrightarrow>
           load_level (Some blank) = (make_grid, None, None, {}, []))"
proof -
  have "load_lines lines = (grid, start, goal, rewards, ghosts)"
    using assms(1,5) by (simp add: load_level_def list_all_not_ex)
  note P = load_lines_placement[OF assms(2,3,4) this]
  have L: "\<forall>line\<in>set lines. CHR 0x0A \<notin> set line \<and> CHR 0x0D \<notin> set line
                           \<and> (\<exists>ch\<in>set line. \<not> is_space ch)"
    unfolding assms(1) using level_lines_clean by blast
  have N: "load_level None = (make_grid, None, None, {}, [])"
    by (simp add: load_level_def empty_level_def)
  have B: "\<forall>blank. (\<forall>line\<in>set (file_lines blank). list_all is_space line) \<longrightarrow>
           load_level (Some blank) = (make_grid, None, None, {}, [])"
  proof (intro allI impI)
    fix blank assume "\<forall>line\<in>set (file_lines blank). list_all is_space line"
    then have "filter (\<lambda>line. \<not> list_all is_space line) (file_lines blank) = []"
      by (simp add: filter_empty_conv)
    then show "load_level (Some blank) = (make_grid, None, None, {}, [])"
      by (simp add: load_level_def load_lines_def empty_level_def)
  qed
  show ?thesis using P L N B by (intro conjI) blast+
qed

theorem load_level_placement_witness:
  "map rstrip_newline (filter (\<lambda>line. \<exists>ch\<in>set line. \<not> is_space ch) (file_lines mixed_newline_level))
     = [''S.G'', ''#DX'', ''X..'']
   \<and> load_level (Some mixed_newline_level)
       = (fst (load_level (Some mixed_newline_level)),
          Some (13, 13), Some (13, 15), {(14, 14)}, [(14, 15), (15, 13)])
   \<and> (ROWS - int (length [''S.G'', ''#DX'', ''X..''])) div 2 = 13
   \<and> (COLS - int (Max (set (map length [''S.G'', ''#DX'', ''X..''])))) div 2 = 13
   \<and> in_bounds (int 1 + 13, int 0 + 13)
   \<and> cell_at (fst (load_level (Some mixed_newline_level))) (int 1 + 13) (int 0 + 13) = kind_of (CHR ''#'')
   \<and> kind_of (CHR ''#'') = WALL
   \<and> cell_at (fst (load_level (Some mixed_newline_level))) 14 15 = EMPTY
   \<and> char_cells [''S.G'', ''#DX'', ''X..''] 13 13 (CHR ''X'') = [(14, 15), (15, 13)]"
proof -
  have ls: "[''S.G'', ''#DX'', ''X..'']
      = map rstrip_newline (filter (\<lambda>line. \<exists>ch\<in>set line. \<not> is_space ch) (file_lines mixed_newline_level))"
    by code_simp
  have l: "load_level (Some mixed_newline_level)
      = (fst (load_level (Some mixed_newline_level)),
         Some (13, 13), Some (13, 15), {(14, 14)}, [(14, 15), (15, 13)])"
    by code_simp
  have ro: "(13::int) = (ROWS - int (length [''S.G'', ''#DX'', ''X..''])) div 2" by code_simp
  have co: "(13::int) = (COLS - int (Max (set (map length [''S.G'', ''#DX'', ''X..''])))) div 2" by code_simp
  have ib: "in_bounds (int 1 + 13, int 0 + 13)" by code_simp
  have k: "kind_of (CHR ''#'') = WALL" by code_simp
  have e: "cell_at (fst (load_level (Some mixed_newline_level))) 14 15 = EMPTY" by code_simp
  have ne: "[''S.G'', ''#DX'', ''X..''] \<noteq> []" by simp
  note T = load_level_placement[OF ls ne ro co l]
  note c2 = conjunct1[OF conjunct2[OF T]]
  have "1 < length [''S.G'', ''#DX'', ''X..''] \<and> 0 < length ([''S.G'', ''#DX'', ''X..''] ! 1)
          \<and> in_bounds (int 1 + 13, int 0 + 13)"
    using ib by simp
  from c2[rule_format, OF this]
  have "cell_at (fst (load_level (Some mixed_newline_level))) (int 1 + 13) (int 0 + 13)
          = kind_of ([''S.G'', ''#DX'', ''X..''] ! 1 ! 0)"
    by (rule conjunct1)
  then have w: "cell_at (fst (load_level (Some mixed_newline_level))) (int 1 + 13) (int 0 + 13)
          = kind_of (CHR ''#'')"
    by simp
  have g: "[(14, 15), (15, 13)] = char_cells [''S.G'', ''#DX'', ''X..''] 13 13 (CHR ''X'')"
    using T by blast
  show ?thesis using ls[symmetric] l ro[symmetric] co[symmetric] ib k e w g[symmetric] by simp
qed

section \<open>Ghosts and walls\<close>

text \<open>
  The other ways a ghost gets its place keep it off the walls: the corner loop tests the
  cell, and a wall placed on a ghost removes the ghost.
\<close>

lemma spawn_corner_ghosts_off_walls:
  "p \<in> set (spawn_corner_ghosts grid []) \<Longrightarrow> in_bounds p \<and> cell_at grid (fst p) (snd p) \<noteq> WALL"
  by (auto simp: spawn_corner_ghosts_def corner_positions_def in_bounds_def split: if_splits)

lemma wall_click_removes_ghost:
  assumes "start_cell st \<noteq> None" "goal_cell st \<noteq> None"
    and "Some cell \<noteq> start_cell st" "Some cell \<noteq> goal_cell st"
    and "distinct (ghost_positions st)" "grid_ok (cur_grid st)" "in_bounds cell"
  shows "cell \<notin> set (ghost_positions (left_click cell False False st))
     \<and> cell_at (cur_grid (left_click cell False False st)) (fst cell) (snd cell) = WALL"
proof -
  have "cell_at (set_cell (cur_grid st) (fst cell) (snd cell) WALL) (fst cell) (snd cell) = WALL"
    using cell_at_set_cell[of "cur_grid st" "fst cell" "snd cell" "fst cell" "snd cell" WALL] assms(6,7)
    by simp
  then show ?thesis
    using assms(1-5) by (auto simp: left_click_def Let_def)
qed

text \<open>
  C6. The claim is that every operation that adds a ghost or makes a cell a wall keeps the
  ghosts off the wall cells. The click with the G key does not: with start (1, 1), goal
  (2, 2) and a wall at (5, 5) placed by left clicks, a left click on (5, 5) with the G key
  held adds a ghost on the wall cell.
\<close>

theorem ghost_added_on_wall:
  "cell_at (cur_grid ghost_on_wall_demo) 5 5 = WALL
   \<and> (5, 5) \<in> set (ghost_positions ghost_on_wall_demo)
   \<and> ghost_positions ghost_on_wall_demo = [(0, 0), (0, 29), (29, 0), (29, 29), (5, 5)]
   \<and> start_cell ghost_on_wall_demo = Some (1, 1) \<and> goal_cell ghost_on_wall_demo = Some (2, 2)"
  by code_simp

end
